theory Spec2Isabelle
  imports Complex_Main "HOL-Library.Word" "HOL-Library.Sublist"
begin

section \<open>JavaScript strings\<close>

text \<open>
  A JavaScript string is a sequence of UTF-16 code units; \<open>length\<close>, \<open>substring\<close>,
  \<open>trim\<close> and the regular expression class \<open>\s\<close> all work on code units.
  \<open>String.prototype.trim\<close> strips WhiteSpace and LineTerminator code points, and \<open>\s\<close>
  matches the same set.
\<close>

type_synonym code_unit = "16 word"
type_synonym js_string = "code_unit list"

definition str :: "string \<Rightarrow> js_string" where
  "str s = map (\<lambda>c. of_nat (of_char c)) s"

definition isWhiteSpace :: "code_unit \<Rightarrow> bool" where
  "isWhiteSpace c \<longleftrightarrow>
     c = 0x0009 \<or> c = 0x000A \<or> c = 0x000B \<or> c = 0x000C \<or> c = 0x000D \<or> c = 0x0020 \<or>
     c = 0x00A0 \<or> c = 0x1680 \<or> (0x2000 \<le> c \<and> c \<le> 0x200A) \<or> c = 0x2028 \<or>
     c = 0x2029 \<or> c = 0x202F \<or> c = 0x205F \<or> c = 0x3000 \<or> c = 0xFEFF"

definition trim :: "js_string \<Rightarrow> js_string" where
  "trim s = rev (dropWhile isWhiteSpace (rev (dropWhile isWhiteSpace s)))"

section \<open>Segment model (types.ts)\<close>

text \<open>
  \<open>TranscriptSegment\<close>: times are JavaScript numbers (seconds), held as real
  values.
\<close>

record segment =
  startTime :: real
  endTime :: real
  "text" :: js_string

section \<open>Live segmentation tracker (class SpeechTracker)\<close>

text \<open>
  The object's fields, with the part of the environment its methods touch made explicit:
  \<^item> \<open>recognition\<close>: whether the browser offers a recognizer (the field is set only then);
  \<^item> \<open>segments\<close> holds a reference to an array; \<open>heap\<close> maps references to array
    contents and \<open>fresh\<close> is the next unused reference, so that \<open>this.segments = []\<close>
    allocates a new array while \<open>push\<close> mutates the array in place and \<open>stop()\<close>
    returns the reference itself, not a copy;
  \<^item> \<open>startTimeMs\<close> is the field \<open>this.startTime\<close> (a \<open>Date.now()\<close> reading in
    milliseconds), renamed because the segment record has a field of that name;
  \<^item> \<open>requests\<close> records the calls made on the recognizer object.
\<close>

datatype recognizer_call = RecStart | RecStop

record tracker =
  recognition :: bool
  isListening :: bool
  segments :: nat
  startTimeMs :: int
  currentSegmentStart :: real
  heap :: "nat \<Rightarrow> segment list"
  fresh :: nat
  requests :: "recognizer_call list"

text \<open>
  One entry of \<open>event.results\<close>: \<open>isFinal\<close>, the \<open>transcript\<close> of its first alternative,
  and the value \<open>Date.now()\<close> returns when the loop body reaches it.
\<close>

record speech_result =
  isFinal :: bool
  resultTranscript :: js_string
  now :: int

record speech_event =
  resultIndex :: nat
  results :: "speech_result list"

definition new_tracker :: "bool \<Rightarrow> tracker" where
  "new_tracker supported =
     \<lparr>recognition = supported, isListening = False, segments = 0, startTimeMs = 0,
      currentSegmentStart = 0, heap = (\<lambda>_. []), fresh = 1, requests = []\<rparr>"

text \<open>The body of the loop in \<open>onresult\<close>, for one entry of \<open>event.results\<close>.\<close>

definition onresult_body :: "speech_result \<Rightarrow> tracker \<Rightarrow> tracker" where
  "onresult_body r s =
     (if isFinal r then
        (let txt = resultTranscript r;
             endTime = real_of_int (now r - startTimeMs s) / 1000
         in if trim txt \<noteq> [] then
              s\<lparr>heap := (heap s)(segments s := heap s (segments s) @
                     [\<lparr>startTime = currentSegmentStart s, endTime = endTime, text = trim txt\<rparr>]),
                currentSegmentStart := endTime\<rparr>
            else s)
      else s)"

definition onresult :: "tracker \<Rightarrow> speech_event \<Rightarrow> tracker" where
  "onresult s event = fold onresult_body (drop (resultIndex event) (results event)) s"

text \<open>\<open>onerror\<close> only writes a warning to the console.\<close>

definition onerror :: "tracker \<Rightarrow> tracker" where
  "onerror s = s"

text \<open>\<open>onend\<close>: an exception of \<open>recognition.start()\<close> is caught and dropped.\<close>

definition onend :: "tracker \<Rightarrow> tracker" where
  "onend s = (if isListening s then s\<lparr>requests := requests s @ [RecStart]\<rparr> else s)"

text \<open>\<open>start()\<close>, with the reading of \<open>Date.now()\<close> as an argument.\<close>

definition start :: "tracker \<Rightarrow> int \<Rightarrow> tracker" where
  "start s t =
     (if recognition s then
        s\<lparr>segments := fresh s, heap := (heap s)(fresh s := []), fresh := Suc (fresh s),
          startTimeMs := t, currentSegmentStart := 0, isListening := True,
          requests := requests s @ [RecStart]\<rparr>
      else s)"

text \<open>\<open>stop()\<close> returns the new state and the reference held in \<open>this.segments\<close>.\<close>

definition stop :: "tracker \<Rightarrow> tracker \<times> nat" where
  "stop s =
     (if recognition s then s\<lparr>isListening := False, requests := requests s @ [RecStop]\<rparr> else s,
      segments s)"

definition isSupported :: "tracker \<Rightarrow> bool" where
  "isSupported s = recognition s"

text \<open>The events the recognizer delivers to the handlers, and their delivery in order.\<close>

datatype recognizer_event = OnResult speech_event | OnError | OnEnd

fun deliver :: "recognizer_event \<Rightarrow> tracker \<Rightarrow> tracker" where
  "deliver (OnResult event) s = onresult s event"
| "deliver OnError s = onerror s"
| "deliver OnEnd s = onend s"

text \<open>The array behind \<open>this.segments\<close>.\<close>

definition transcript_of :: "tracker \<Rightarrow> segment list" where
  "transcript_of s = heap s (segments s)"

text \<open>
  The \<open>Date.now()\<close> readings a list of events makes, in order: one for each final entry
  the loop of \<open>onresult\<close> visits.
\<close>

fun event_readings :: "recognizer_event \<Rightarrow> int list" where
  "event_readings (OnResult event) =
     map now (filter isFinal (drop (resultIndex event) (results event)))"
| "event_readings OnError = []"
| "event_readings OnEnd = []"

definition clock_readings :: "recognizer_event list \<Rightarrow> int list" where
  "clock_readings evs = concat (map event_readings evs)"

section \<open>Highlight range resolver (renderSegment in TranscriptView.tsx)\<close>

text \<open>
  The fields of \<open>Note\<close> that \<open>renderSegment\<close> reads, with \<open>id\<close> to tell notes apart.
  The optional fields are options; offsets are integers, as the selection code produces them.
\<close>

record Note =
  note_id :: string
  content :: string
  transcriptSegmentIndex :: "int option"
  highlightStart :: "int option"
  highlightEnd :: "int option"
  color :: "string option"

text \<open>
  \<open>String.prototype.substring\<close>: both arguments are clamped to \<open>[0, length]\<close> and
  swapped when the first is the larger.
\<close>

definition substring :: "'a list \<Rightarrow> int \<Rightarrow> int \<Rightarrow> 'a list" where
  "substring s a b =
     (let len = int (length s);
          finalStart = min (max a 0) len;
          finalEnd = min (max b 0) len;
          from = min finalStart finalEnd;
          to = max finalStart finalEnd
      in take (nat (to - from)) (drop (nat from) s))"

text \<open>
  A JavaScript \<open>Set\<close> of numbers keeps its elements in insertion order and ignores the
  insertion of an element it already holds.
\<close>

definition set_add :: "int \<Rightarrow> int list \<Rightarrow> int list" where
  "set_add x ps = (if x \<in> set ps then ps else ps @ [x])"

text \<open>The body of \<open>segmentNotes.forEach\<close>, for a text of length \<open>len\<close>.\<close>

definition add_note_points :: "int \<Rightarrow> Note \<Rightarrow> int list \<Rightarrow> int list" where
  "add_note_points len n ps =
     (let ps1 = (case highlightStart n of
                   None \<Rightarrow> ps
                 | Some hs \<Rightarrow> set_add (max 0 (min hs len)) ps)
      in case highlightEnd n of
           None \<Rightarrow> ps1
         | Some he \<Rightarrow> set_add (max 0 (min he len)) ps1)"

definition boundary_points :: "js_string \<Rightarrow> Note list \<Rightarrow> int list" where
  "boundary_points txt segmentNotes =
     fold (add_note_points (int (length txt))) segmentNotes
       (set_add (int (length txt)) (set_add 0 []))"

text \<open>The predicate given to \<open>find\<close>: both offsets defined and the midpoint between them.\<close>

definition covers :: "real \<Rightarrow> Note \<Rightarrow> bool" where
  "covers mid n =
     (case highlightStart n of
        None \<Rightarrow> False
      | Some hs \<Rightarrow>
          (case highlightEnd n of
             None \<Rightarrow> False
           | Some he \<Rightarrow> real_of_int hs \<le> mid \<and> real_of_int he \<ge> mid))"

text \<open>
  One element of the output: the offsets of the part, its text, and the note that styles
  it (\<open>None\<close> for an unstyled span).
\<close>

record run =
  run_start :: int
  run_end :: int
  partText :: js_string
  activeNote :: "Note option"

text \<open>
  The \<open>for\<close> loop over consecutive entries of \<open>sortedPoints\<close>;
  \<open>segmentNotes.slice().reverse().find(p)\<close> is \<open>find p (rev segmentNotes)\<close>.
\<close>

fun render_parts :: "js_string \<Rightarrow> Note list \<Rightarrow> int list \<Rightarrow> run list" where
  "render_parts txt segmentNotes (pstart # pend # rest) =
     (let part = substring txt pstart pend
      in if part = [] then render_parts txt segmentNotes (pend # rest)
         else
           (let mid = real_of_int pstart + (real_of_int pend - real_of_int pstart) / 2;
                active = find (covers mid) (rev segmentNotes)
            in \<lparr>run_start = pstart, run_end = pend, partText = part, activeNote = active\<rparr>
               # render_parts txt segmentNotes (pend # rest)))"
| "render_parts txt segmentNotes [p] = []"
| "render_parts txt segmentNotes [] = []"

text \<open>
  \<open>renderSegment\<close>, with the component's \<open>notes\<close> as an argument. Without notes for the
  segment the source returns one unstyled span holding the whole text; it is the run from
  \<open>0\<close> to the length of the text. \<open>sort\<close> is ascending, as the comparator \<open>a - b\<close> is.
\<close>

definition notes_of_segment :: "Note list \<Rightarrow> int \<Rightarrow> Note list" where
  "notes_of_segment notes index = filter (\<lambda>n. transcriptSegmentIndex n = Some index) notes"

definition renderSegment :: "Note list \<Rightarrow> segment \<Rightarrow> int \<Rightarrow> run list" where
  "renderSegment notes seg index =
     (let segmentNotes = notes_of_segment notes index;
          txt = text seg
      in if length segmentNotes = 0 then
           [\<lparr>run_start = 0, run_end = int (length txt), partText = txt, activeNote = None\<rparr>]
         else
           (let points = boundary_points txt segmentNotes;
                sortedPoints = sort points
            in render_parts txt segmentNotes sortedPoints))"

text \<open>
  The clamped offsets of a note, as \<open>add_note_points\<close> computes them, and the runs in
  which a position lies.
\<close>

definition clamped :: "js_string \<Rightarrow> int \<Rightarrow> int" where
  "clamped txt x = max 0 (min x (int (length txt)))"

definition runs_at :: "run list \<Rightarrow> int \<Rightarrow> run list" where
  "runs_at rs k = filter (\<lambda>r. run_start r \<le> k \<and> k < run_end r) rs"

text \<open>The midpoint \<open>mid\<close> the loop computes for a run, from its offsets.\<close>

definition run_mid :: "run \<Rightarrow> real" where
  "run_mid r = real_of_int (run_start r) + (real_of_int (run_end r) - real_of_int (run_start r)) / 2"

text \<open>
  A malformed annotation: both offsets present, and the start beyond the end once both
  are clamped.
\<close>

definition malformed :: "js_string \<Rightarrow> Note \<Rightarrow> bool" where
  "malformed txt n =
     (case highlightStart n of
        None \<Rightarrow> False
      | Some hs \<Rightarrow>
          (case highlightEnd n of
             None \<Rightarrow> False
           | Some he \<Rightarrow> clamped txt hs > clamped txt he))"

section \<open>Speaking-rate analyzer (SpeakingSpeedView)\<close>

text \<open>
  \<open>s.split(/\s+/)\<close>: the pieces of \<open>s\<close> between the maximal runs of whitespace, the
  piece before a leading run and the piece after a trailing run included (both empty);
  the empty string gives one empty piece. The first argument is the piece being read.
\<close>

function split_ws :: "js_string \<Rightarrow> js_string \<Rightarrow> js_string list" where
  "split_ws piece [] = [piece]"
| "split_ws piece (c # cs) =
     (if isWhiteSpace c then piece # split_ws [] (dropWhile isWhiteSpace cs)
      else split_ws (piece @ [c]) cs)"
  by pat_completeness auto
termination
  by (relation "measure (\<lambda>(piece, s). length s)")
     (auto simp: length_dropWhile_le less_Suc_eq_le)

definition split_whitespace :: "js_string \<Rightarrow> js_string list" where
  "split_whitespace s = split_ws [] s"

text \<open>
  JavaScript numbers are IEEE 754 doubles. A finite double is held as its real value;
  zero carries no sign. \<open>to_double\<close> rounds a real to the nearest double, a tie to the
  one with even significand, and to an infinity from \<open>2 ^ 1024 - 2 ^ 970\<close> on:
  \<open>binade a\<close> is the exponent \<open>e\<close> with \<open>2 ^ e \<le> a < 2 ^ (e + 1)\<close>, \<open>ulp x\<close> the
  spacing of the doubles around \<open>x\<close> (significands of 53 bits, exponents from
  \<open>-1022\<close>, below which the spacing stays \<open>2 ^ -1074\<close>), and \<open>nearest x\<close> the multiple
  of \<open>ulp x\<close> nearest to \<open>x\<close>.
\<close>

datatype number = Finite real | PosInf | NegInf | NaN

definition round_half_even :: "real \<Rightarrow> int" where
  "round_half_even q =
     (let f = \<lfloor>q\<rfloor>; d = q - of_int f
      in if d < 1 / 2 then f else if 1 / 2 < d then f + 1 else if even f then f else f + 1)"

function binade :: "real \<Rightarrow> int" where
  "binade a = (if 2 \<le> a then binade (a / 2) + 1
               else if 0 < a \<and> a < 1 then binade (2 * a) - 1
               else 0)"
  by pat_completeness auto
termination
proof (relation "measure (\<lambda>a. if 1 \<le> a then nat \<lfloor>a\<rfloor> else nat \<lfloor>1 / a\<rfloor> + 1)")
  show "wf (measure (\<lambda>a::real. if 1 \<le> a then nat \<lfloor>a\<rfloor> else nat \<lfloor>1 / a\<rfloor> + 1))"
    by simp
next
  fix a :: real assume a: "2 \<le> a"
  have "\<lfloor>a / 2\<rfloor> < \<lfloor>a\<rfloor>" using a by linarith
  moreover have "0 \<le> \<lfloor>a / 2\<rfloor>" using a by simp
  ultimately show "(a / 2, a) \<in> measure (\<lambda>a. if 1 \<le> a then nat \<lfloor>a\<rfloor> else nat \<lfloor>1 / a\<rfloor> + 1)"
    using a by simp
next
  fix a :: real assume "\<not> 2 \<le> a" and a: "0 < a \<and> a < 1"
  show "(2 * a, a) \<in> measure (\<lambda>a. if 1 \<le> a then nat \<lfloor>a\<rfloor> else nat \<lfloor>1 / a\<rfloor> + 1)"
  proof (cases "1 \<le> 2 * a")
    case True
    then have "\<lfloor>2 * a\<rfloor> = 1" using a by linarith
    moreover have "1 \<le> \<lfloor>1 / a\<rfloor>" using a by (simp add: le_floor_iff)
    ultimately show ?thesis using True a by simp
  next
    case False
    then have "2 < 1 / a" using a by (simp add: field_simps)
    have "1 / (2 * a) = (1 / a) / 2" by simp
    then have "\<lfloor>1 / (2 * a)\<rfloor> < \<lfloor>1 / a\<rfloor>" using \<open>2 < 1 / a\<close> by linarith
    moreover have "0 \<le> \<lfloor>1 / (2 * a)\<rfloor>" using a by simp
    ultimately show ?thesis using False a by simp
  qed
qed

definition ulp :: "real \<Rightarrow> real" where
  "ulp x = 2 powi (max (binade \<bar>x\<bar>) (- 1022) - 52)"

definition nearest :: "real \<Rightarrow> real" where
  "nearest x = of_int (round_half_even (x / ulp x)) * ulp x"

definition huge :: real where
  "huge = 2 powi 1024"

definition to_double :: "real \<Rightarrow> number" where
  "to_double x =
     (if huge \<le> nearest x then PosInf
      else if nearest x \<le> - huge then NegInf
      else Finite (nearest x))"

text \<open>
  The operators \<open>>\<close>, \<open>/\<close> and \<open>*\<close> on numbers, and \<open>Math.round\<close>. A
  comparison with \<open>NaN\<close> is false; a quotient or product of finite numbers is the exact
  result rounded to a double; a zero divisor counts as \<open>+0\<close>. \<open>Math.round\<close> gives the
  nearest integer, a tie upwards, which is a double whenever its argument is.
\<close>

fun js_gt :: "number \<Rightarrow> number \<Rightarrow> bool" where
  "js_gt NaN y = False"
| "js_gt x NaN = False"
| "js_gt (Finite a) (Finite b) = (b < a)"
| "js_gt (Finite a) PosInf = False"
| "js_gt (Finite a) NegInf = True"
| "js_gt PosInf PosInf = False"
| "js_gt PosInf y = True"
| "js_gt NegInf y = False"

fun js_divide :: "number \<Rightarrow> number \<Rightarrow> number" where
  "js_divide NaN y = NaN"
| "js_divide x NaN = NaN"
| "js_divide (Finite a) (Finite b) =
     (if b = 0 then (if a = 0 then NaN else if 0 < a then PosInf else NegInf)
      else to_double (a / b))"
| "js_divide (Finite a) PosInf = Finite 0"
| "js_divide (Finite a) NegInf = Finite 0"
| "js_divide PosInf (Finite b) = (if b < 0 then NegInf else PosInf)"
| "js_divide NegInf (Finite b) = (if b < 0 then PosInf else NegInf)"
| "js_divide PosInf PosInf = NaN"
| "js_divide PosInf NegInf = NaN"
| "js_divide NegInf PosInf = NaN"
| "js_divide NegInf NegInf = NaN"

fun js_times :: "number \<Rightarrow> number \<Rightarrow> number" where
  "js_times NaN y = NaN"
| "js_times x NaN = NaN"
| "js_times (Finite a) (Finite b) = to_double (a * b)"
| "js_times (Finite a) PosInf = (if a = 0 then NaN else if 0 < a then PosInf else NegInf)"
| "js_times (Finite a) NegInf = (if a = 0 then NaN else if 0 < a then NegInf else PosInf)"
| "js_times PosInf (Finite b) = (if b = 0 then NaN else if 0 < b then PosInf else NegInf)"
| "js_times NegInf (Finite b) = (if b = 0 then NaN else if 0 < b then NegInf else PosInf)"
| "js_times PosInf PosInf = PosInf"
| "js_times PosInf NegInf = NegInf"
| "js_times NegInf PosInf = NegInf"
| "js_times NegInf NegInf = PosInf"

fun js_round :: "number \<Rightarrow> number" where
  "js_round (Finite a) = Finite (of_int \<lfloor>a + 1 / 2\<rfloor>)"
| "js_round PosInf = PosInf"
| "js_round NegInf = NegInf"
| "js_round NaN = NaN"

text \<open>
  The two guarded expressions \<open>duration > 0 ? Math.round((words / duration) * 60) : 0\<close>.
  The argument \<open>d\<close> is the exact difference of the two times; the variable
  \<open>duration\<close> of the code holds the double nearest to it, on which the comparison, the
  division and the product then work. A word count is an integer below \<open>2 ^ 53\<close>, hence
  a double.
\<close>

definition guarded_wpm :: "nat \<Rightarrow> real \<Rightarrow> number" where
  "guarded_wpm w d =
     (let duration = to_double d
      in if js_gt duration (Finite 0) then
           js_round (js_times (js_divide (Finite (real w)) duration) (Finite 60))
         else Finite 0)"

definition words_of :: "segment \<Rightarrow> nat" where
  "words_of seg = length (split_whitespace (trim (text seg)))"

record segment_stat = segment +
  wpm :: number

text \<open>
  The callback of \<open>transcript.map\<close>; the state is the array built so far and the
  variable \<open>totalWords\<close>.
\<close>

definition stat_step :: "segment \<Rightarrow> segment_stat list \<times> nat \<Rightarrow> segment_stat list \<times> nat" where
  "stat_step seg acc =
     (let words = words_of seg;
          duration = endTime seg - startTime seg;
          totalWords = snd acc + words;
          w = guarded_wpm words duration
      in (fst acc @ [\<lparr>startTime = startTime seg, endTime = endTime seg, text = text seg, wpm = w\<rparr>],
          totalWords))"

text \<open>The object \<open>stats\<close>; its fields carry the names of the variables stored in them.\<close>

record stats =
  globalWpm :: number
  totalWords :: nat
  totalDuration :: real
  segmentStats :: "segment_stat list"

definition speed_stats :: "segment list \<Rightarrow> stats" where
  "speed_stats transcript =
     (if length transcript = 0 then
        \<lparr>globalWpm = Finite 0, totalWords = 0, totalDuration = 0, segmentStats = []\<rparr>
      else
        (let (segmentStats, totalWords) = fold stat_step transcript ([], 0);
             startTime = startTime (transcript ! 0);
             endTime = endTime (transcript ! (length transcript - 1));
             totalDuration = endTime - startTime;
             globalWpm = guarded_wpm totalWords totalDuration
         in \<lparr>globalWpm = globalWpm, totalWords = totalWords, totalDuration = totalDuration,
             segmentStats = segmentStats\<rparr>))"

text \<open>
  The count the specification gives for a segment: the number of whitespace-delimited
  tokens, that is of maximal runs of characters that are not whitespace. The flag says
  whether the previous character belonged to a token.
\<close>

fun count_tokens :: "bool \<Rightarrow> js_string \<Rightarrow> nat" where
  "count_tokens inside [] = 0"
| "count_tokens inside (c # cs) =
     (if isWhiteSpace c then count_tokens False cs
      else (if inside then 0 else 1) + count_tokens True cs)"

definition token_count :: "js_string \<Rightarrow> nat" where
  "token_count s = count_tokens False s"

section \<open>Example inputs\<close>

definition example_segment :: segment where
  "example_segment = \<lparr>startTime = 0, endTime = 4, text = str ''abcdefgh''\<rparr>"

definition note_A :: Note where
  "note_A = \<lparr>note_id = ''A'', content = ''first'', transcriptSegmentIndex = Some 0,
             highlightStart = Some 0, highlightEnd = Some 5, color = Some ''#FDE047''\<rparr>"

definition note_B :: Note where
  "note_B = \<lparr>note_id = ''B'', content = ''second'', transcriptSegmentIndex = Some 0,
             highlightStart = Some 3, highlightEnd = Some 8, color = Some ''#86EFAC''\<rparr>"

definition note_wide :: Note where
  "note_wide = \<lparr>note_id = ''W'', content = ''stale offsets'', transcriptSegmentIndex = Some 0,
                highlightStart = Some (- 2), highlightEnd = Some 20, color = None\<rparr>"

definition note_inverted :: Note where
  "note_inverted = \<lparr>note_id = ''I'', content = ''inverted'', transcriptSegmentIndex = Some 0,
                    highlightStart = Some 6, highlightEnd = Some 2, color = None\<rparr>"

definition result_hi :: speech_result where
  "result_hi = \<lparr>isFinal = True, resultTranscript = str '' hi'', now = 2000\<rparr>"

definition result_blank :: speech_result where
  "result_blank = \<lparr>isFinal = True, resultTranscript = str ''  '', now = 2500\<rparr>"

definition result_late :: speech_result where
  "result_late = \<lparr>isFinal = True, resultTranscript = str ''late'', now = 3000\<rparr>"

definition tiny :: real where
  "tiny = 2 powi (- 1020)"

definition event_of :: "speech_result list \<Rightarrow> speech_event" where
  "event_of rs = \<lparr>resultIndex = 0, results = rs\<rparr>"

section \<open>Auxiliary notions\<close>

text \<open>
  Segments in ascending order of start, each ending no earlier than it starts and no
  later than \<open>c\<close>; the seconds elapsed at a clock reading; and a strictly ascending list
  of offsets into a text.
\<close>

definition ordered_upto :: "segment list \<Rightarrow> real \<Rightarrow> bool" where
  "ordered_upto segs c \<longleftrightarrow>
     sorted (map startTime segs) \<and>
     (\<forall>seg \<in> set segs. startTime seg \<le> endTime seg \<and> endTime seg \<le> c)"

definition elapsed :: "tracker \<Rightarrow> int \<Rightarrow> real" where
  "elapsed s t = real_of_int (t - startTimeMs s) / 1000"

definition in_text :: "js_string \<Rightarrow> int list \<Rightarrow> bool" where
  "in_text txt ps \<longleftrightarrow> sorted_wrt (<) ps \<and> (\<forall>p \<in> set ps. 0 \<le> p \<and> p \<le> int (length txt))"

section \<open>Tracker: frame and append lemmas\<close>

lemma onresult_body_empty:
  "trim (resultTranscript r) = [] \<Longrightarrow> onresult_body r s = s"
  by (simp add: onresult_body_def Let_def)

lemma fold_onresult_body_empty:
  "\<forall>r \<in> set rs. trim (resultTranscript r) = [] \<Longrightarrow> fold onresult_body rs s = s"
  by (induction rs arbitrary: s) (simp_all add: onresult_body_empty)

lemma fold_onresult_body_skip:
  "trim (resultTranscript r) = [] \<Longrightarrow>
     fold onresult_body (pre @ r # post) s = fold onresult_body (pre @ post) s"
  by (simp add: onresult_body_empty)

lemma fold_onresult_body_filter:
  "fold onresult_body rs s =
     fold onresult_body (filter (\<lambda>r. trim (resultTranscript r) \<noteq> []) rs) s"
  by (induction rs arbitrary: s) (simp_all add: onresult_body_empty)

lemma onresult_body_emits:
  "isFinal r \<Longrightarrow> trim (resultTranscript r) \<noteq> [] \<Longrightarrow>
     transcript_of (onresult_body r s) = transcript_of s @
       [\<lparr>startTime = currentSegmentStart s,
         endTime = real_of_int (now r - startTimeMs s) / 1000,
         text = trim (resultTranscript r)\<rparr>]"
  by (simp add: onresult_body_def Let_def transcript_of_def)

lemma onresult_body_frame:
  "recognition (onresult_body r s) = recognition s"
  "isListening (onresult_body r s) = isListening s"
  "segments (onresult_body r s) = segments s"
  "startTimeMs (onresult_body r s) = startTimeMs s"
  "fresh (onresult_body r s) = fresh s"
  "requests (onresult_body r s) = requests s"
  by (simp_all add: onresult_body_def Let_def)

lemma onresult_body_appends:
  "\<exists>new. heap (onresult_body r s) = (heap s)(segments s := heap s (segments s) @ new)"
proof (cases "isFinal r \<and> trim (resultTranscript r) \<noteq> []")
  case True
  then show ?thesis by (auto simp: onresult_body_def Let_def)
next
  case False
  then have "onresult_body r s = s" by (auto simp: onresult_body_def Let_def)
  then have "heap (onresult_body r s) = (heap s)(segments s := heap s (segments s) @ [])" by simp
  then show ?thesis by blast
qed

lemma onresult_body_prefix:
  "prefix (heap s a) (heap (onresult_body r s) a)"
  using onresult_body_appends [of r s] by (auto simp: fun_upd_def)

lemma fold_onresult_body_frame:
  "isListening (fold onresult_body rs s) = isListening s"
  "segments (fold onresult_body rs s) = segments s"
  "startTimeMs (fold onresult_body rs s) = startTimeMs s"
  "requests (fold onresult_body rs s) = requests s"
  by (induction rs arbitrary: s) (simp_all add: onresult_body_frame)

lemma fold_onresult_body_prefix:
  "prefix (heap s a) (heap (fold onresult_body rs s) a)"
proof (induction rs arbitrary: s)
  case Nil
  show ?case by simp
next
  case (Cons r rs)
  have "prefix (heap s a) (heap (onresult_body r s) a)" by (rule onresult_body_prefix)
  also have "prefix (heap (onresult_body r s) a) (heap (fold onresult_body rs (onresult_body r s)) a)"
    by (rule Cons.IH)
  finally show ?case by simp
qed

lemma deliver_stopped:
  "\<not> isListening s \<Longrightarrow> \<not> isListening (deliver e s) \<and> prefix (heap s a) (heap (deliver e s) a)
     \<and> segments (deliver e s) = segments s"
  by (cases e) (simp_all add: onresult_def onerror_def onend_def fold_onresult_body_frame fold_onresult_body_prefix)

lemma fold_deliver_stopped:
  "\<not> isListening s \<Longrightarrow> \<not> isListening (fold deliver evs s) \<and> prefix (heap s a) (heap (fold deliver evs s) a)
     \<and> segments (fold deliver evs s) = segments s"
proof (induction evs arbitrary: s)
  case Nil
  then show ?case by simp
next
  case (Cons e evs)
  from deliver_stopped [OF Cons.prems, of e a]
  have 1: "\<not> isListening (deliver e s)" and 2: "prefix (heap s a) (heap (deliver e s) a)"
    and 3: "segments (deliver e s) = segments s" by simp_all
  from Cons.IH [OF 1] 2 3 show ?case by (auto intro: prefix_order.trans)
qed

section \<open>Tracker: order of the emitted segments\<close>

lemma elapsed_mono: "t \<le> u \<Longrightarrow> elapsed s t \<le> elapsed s u"
  by (simp add: elapsed_def divide_right_mono)

lemma ordered_upto_snoc:
  assumes "ordered_upto segs c" and "c \<le> e"
  shows "ordered_upto (segs @ [\<lparr>startTime = c, endTime = e, text = x\<rparr>]) e"
  using assms by (auto simp: ordered_upto_def sorted_append)

lemma onresult_body_ordered:
  assumes "ordered_upto (transcript_of s) (currentSegmentStart s)"
    and "isFinal r \<longrightarrow> currentSegmentStart s \<le> elapsed s (now r)"
  shows "ordered_upto (transcript_of (onresult_body r s)) (currentSegmentStart (onresult_body r s))"
proof (cases "isFinal r \<and> trim (resultTranscript r) \<noteq> []")
  case True
  then have le: "currentSegmentStart s \<le> elapsed s (now r)" using assms(2) by simp
  from True have "transcript_of (onresult_body r s) = transcript_of s @
      [\<lparr>startTime = currentSegmentStart s, endTime = elapsed s (now r), text = trim (resultTranscript r)\<rparr>]"
    and "currentSegmentStart (onresult_body r s) = elapsed s (now r)"
    by (simp_all add: onresult_body_def Let_def transcript_of_def elapsed_def)
  with ordered_upto_snoc [OF assms(1) le] show ?thesis by simp
next
  case False
  then have "onresult_body r s = s" by (auto simp: onresult_body_def Let_def)
  with assms(1) show ?thesis by simp
qed

lemma onresult_body_cursor:
  assumes "currentSegmentStart s \<le> elapsed s t" and "isFinal r \<longrightarrow> now r \<le> t"
  shows "currentSegmentStart (onresult_body r s) \<le> elapsed (onresult_body r s) t"
proof (cases "isFinal r \<and> trim (resultTranscript r) \<noteq> []")
  case True
  then have "currentSegmentStart (onresult_body r s) = elapsed s (now r)"
    by (simp add: onresult_body_def Let_def elapsed_def)
  moreover have "elapsed (onresult_body r s) t = elapsed s t"
    by (simp add: elapsed_def onresult_body_frame)
  moreover have "elapsed s (now r) \<le> elapsed s t" using True assms(2) by (simp add: elapsed_mono)
  ultimately show ?thesis by simp
next
  case False
  then have "onresult_body r s = s" by (auto simp: onresult_body_def Let_def)
  with assms(1) show ?thesis by simp
qed

lemma fold_onresult_body_ordered:
  assumes "ordered_upto (transcript_of s) (currentSegmentStart s)"
    and "sorted (map now (filter isFinal rs) @ ts)"
    and "\<forall>t \<in> set (map now (filter isFinal rs) @ ts). currentSegmentStart s \<le> elapsed s t"
  shows "ordered_upto (transcript_of (fold onresult_body rs s)) (currentSegmentStart (fold onresult_body rs s))
     \<and> (\<forall>t \<in> set ts. currentSegmentStart (fold onresult_body rs s) \<le> elapsed (fold onresult_body rs s) t)"
  using assms
proof (induction rs arbitrary: s)
  case Nil
  then show ?case by simp
next
  case (Cons r rs)
  let ?s = "onresult_body r s"
  have 1: "ordered_upto (transcript_of ?s) (currentSegmentStart ?s)"
    using Cons.prems(1,3) by (intro onresult_body_ordered) auto
  have 2: "sorted (map now (filter isFinal rs) @ ts)"
    using Cons.prems(2) by (auto split: if_splits)
  have 3: "\<forall>t \<in> set (map now (filter isFinal rs) @ ts). currentSegmentStart ?s \<le> elapsed ?s t"
  proof
    fix t assume t: "t \<in> set (map now (filter isFinal rs) @ ts)"
    have "currentSegmentStart s \<le> elapsed s t" using Cons.prems(3) t by (auto split: if_splits)
    moreover have "isFinal r \<longrightarrow> now r \<le> t" using Cons.prems(2) t by (auto split: if_splits)
    ultimately show "currentSegmentStart ?s \<le> elapsed ?s t" by (rule onresult_body_cursor)
  qed
  from Cons.IH [OF 1 2 3] show ?case by simp
qed

lemma deliver_ordered:
  assumes "ordered_upto (transcript_of s) (currentSegmentStart s)"
    and "sorted (event_readings e @ ts)"
    and "\<forall>t \<in> set (event_readings e @ ts). currentSegmentStart s \<le> elapsed s t"
  shows "ordered_upto (transcript_of (deliver e s)) (currentSegmentStart (deliver e s))
     \<and> (\<forall>t \<in> set ts. currentSegmentStart (deliver e s) \<le> elapsed (deliver e s) t)"
proof (cases e)
  case (OnResult ev)
  with assms fold_onresult_body_ordered [of s "drop (resultIndex ev) (results ev)" ts]
  show ?thesis by (simp add: onresult_def)
next
  case OnError
  with assms show ?thesis by (simp add: onerror_def)
next
  case OnEnd
  with assms show ?thesis by (simp add: onend_def transcript_of_def elapsed_def)
qed

lemma fold_deliver_ordered:
  assumes "ordered_upto (transcript_of s) (currentSegmentStart s)"
    and "sorted (clock_readings evs)"
    and "\<forall>t \<in> set (clock_readings evs). currentSegmentStart s \<le> elapsed s t"
  shows "ordered_upto (transcript_of (fold deliver evs s)) (currentSegmentStart (fold deliver evs s))"
  using assms
proof (induction evs arbitrary: s)
  case Nil
  then show ?case by simp
next
  case (Cons e evs)
  have "ordered_upto (transcript_of (deliver e s)) (currentSegmentStart (deliver e s))
     \<and> (\<forall>t \<in> set (clock_readings evs). currentSegmentStart (deliver e s) \<le> elapsed (deliver e s) t)"
    using Cons.prems by (intro deliver_ordered) (simp_all add: clock_readings_def)
  moreover have "sorted (clock_readings evs)"
    using Cons.prems(2) by (simp add: clock_readings_def sorted_append)
  ultimately show ?case using Cons.IH by simp
qed

section \<open>Tracker: the claims\<close>

text \<open>
  Claim C1, as the code has it. \<open>onresult\<close> does not consult \<open>isListening\<close>, and
  \<open>stop()\<close> hands out the array itself; so a final result that arrives after
  \<open>stop()\<close> is not ignored. What holds: after \<open>stop()\<close> the session is inactive and
  stays so under every later recognizer event, an \<open>end\<close> event then requests no restart
  and changes nothing, and later events only append to the array \<open>stop()\<close> returned: the
  transcript as it stood at \<open>stop()\<close> remains a prefix of it, and each late final result
  with non-empty trimmed text is appended and moves the cursor.
\<close>

theorem stop_then_late_events:
  assumes "recognition s" and "stop s = (s1, returned)"
  shows "returned = segments s1 \<and> heap s1 returned = transcript_of s \<and> \<not> isListening s1
    \<and> onend s1 = s1
    \<and> (\<forall>evs. \<not> isListening (fold deliver evs s1)
            \<and> prefix (transcript_of s) (heap (fold deliver evs s1) returned))
    \<and> (\<forall>r. isFinal r \<and> trim (resultTranscript r) \<noteq> [] \<longrightarrow>
          heap (onresult_body r s1) returned = transcript_of s @
            [\<lparr>startTime = currentSegmentStart s,
              endTime = real_of_int (now r - startTimeMs s) / 1000,
              text = trim (resultTranscript r)\<rparr>]
          \<and> currentSegmentStart (onresult_body r s1) = real_of_int (now r - startTimeMs s) / 1000)"
proof -
  from assms have s1: "s1 = s\<lparr>isListening := False, requests := requests s @ [RecStop]\<rparr>"
    and ret: "returned = segments s" by (simp_all add: stop_def)
  have a: "returned = segments s1" "heap s1 returned = transcript_of s" "\<not> isListening s1"
    by (simp_all add: s1 ret transcript_of_def)
  have b: "onend s1 = s1" using a(3) by (simp add: onend_def)
  have c: "\<forall>evs. \<not> isListening (fold deliver evs s1)
            \<and> prefix (transcript_of s) (heap (fold deliver evs s1) returned)"
    using fold_deliver_stopped [OF a(3), of _ returned] a(2) by simp
  have d: "\<forall>r. isFinal r \<and> trim (resultTranscript r) \<noteq> [] \<longrightarrow>
          heap (onresult_body r s1) returned = transcript_of s @
            [\<lparr>startTime = currentSegmentStart s,
              endTime = real_of_int (now r - startTimeMs s) / 1000,
              text = trim (resultTranscript r)\<rparr>]
          \<and> currentSegmentStart (onresult_body r s1) = real_of_int (now r - startTimeMs s) / 1000"
    by (simp add: onresult_body_def Let_def s1 ret transcript_of_def)
  from a b c d show ?thesis by blast
qed

text \<open>The statement above at a session with one segment, stopped, then one late result.\<close>

theorem stop_then_late_events_witness:
  "recognition (onresult (start (new_tracker True) 1000) (event_of [result_hi]))
   \<and> stop (onresult (start (new_tracker True) 1000) (event_of [result_hi]))
       = (fst (stop (onresult (start (new_tracker True) 1000) (event_of [result_hi]))), 1)
   \<and> isFinal result_late \<and> trim (resultTranscript result_late) \<noteq> []
   \<and> onend (fst (stop (onresult (start (new_tracker True) 1000) (event_of [result_hi]))))
       = fst (stop (onresult (start (new_tracker True) 1000) (event_of [result_hi])))
   \<and> heap (onresult_body result_late
              (fst (stop (onresult (start (new_tracker True) 1000) (event_of [result_hi]))))) 1
       = [\<lparr>startTime = 0, endTime = 1, text = str ''hi''\<rparr>,
          \<lparr>startTime = 1, endTime = 2, text = str ''late''\<rparr>]"
  using stop_then_late_events
    [of "onresult (start (new_tracker True) 1000) (event_of [result_hi])"
        "fst (stop (onresult (start (new_tracker True) 1000) (event_of [result_hi])))" 1]
  by (simp add: start_def new_tracker_def onresult_def onresult_body_def stop_def onend_def
      event_of_def result_hi_def result_late_def str_def trim_def isWhiteSpace_def Let_def
      transcript_of_def)

text \<open>
  Claim C1 as stated fails: a session is started at clock reading 1000, hears \<open>hi\<close> at
  2000 and is stopped; the result \<open>late\<close> delivered at 3000 is appended to the array
  that \<open>stop()\<close> returned and moves the cursor.
\<close>

theorem late_result_after_stop_counterexample:
  "(let s0 = start (new_tracker True) 1000;
        s1 = onresult s0 (event_of [result_hi]);
        (s2, returned) = stop s1;
        s3 = onresult s2 (event_of [result_late])
    in \<not> isListening s2
       \<and> heap s2 returned = [\<lparr>startTime = 0, endTime = 1, text = str ''hi''\<rparr>]
       \<and> heap s3 returned = [\<lparr>startTime = 0, endTime = 1, text = str ''hi''\<rparr>,
                              \<lparr>startTime = 1, endTime = 2, text = str ''late''\<rparr>]
       \<and> heap s3 returned \<noteq> heap s2 returned
       \<and> currentSegmentStart s2 = 1 \<and> currentSegmentStart s3 = 2 \<and> s3 \<noteq> s2)"
  by (simp add: start_def new_tracker_def onresult_def onresult_body_def stop_def
      event_of_def result_hi_def result_late_def str_def trim_def isWhiteSpace_def Let_def)

text \<open>
  Claim C5. A session is started at clock reading \<open>t0\<close> on a tracker that has a
  recognizer, and then receives recognizer events whose clock readings, taken in order,
  never decrease and are not before \<open>t0\<close>. Then the segments emitted have non-decreasing
  \<open>startTime\<close>, and each has \<open>startTime \<le> endTime\<close>. (Division by 1000 is exact here;
  the rounded division of doubles is monotone as well.)
\<close>

theorem tracker_segments_ordered:
  assumes "recognition s0"
    and "sorted (t0 # clock_readings evs)"
  shows "sorted (map startTime (transcript_of (fold deliver evs (start s0 t0))))
     \<and> (\<forall>seg \<in> set (transcript_of (fold deliver evs (start s0 t0))). startTime seg \<le> endTime seg)"
proof -
  let ?s = "start s0 t0"
  from assms(1) have init: "transcript_of ?s = []" "currentSegmentStart ?s = 0" "startTimeMs ?s = t0"
    by (simp_all add: start_def transcript_of_def)
  have 1: "ordered_upto (transcript_of ?s) (currentSegmentStart ?s)"
    by (simp add: init ordered_upto_def)
  have 2: "sorted (clock_readings evs)" using assms(2) by simp
  have 3: "\<forall>t \<in> set (clock_readings evs). currentSegmentStart ?s \<le> elapsed ?s t"
    using assms(2) by (simp add: init elapsed_def)
  from fold_deliver_ordered [OF 1 2 3] show ?thesis by (simp add: ordered_upto_def)
qed

text \<open>A session with two utterances, a blank result and an \<open>end\<close> event in between.\<close>

theorem tracker_segments_ordered_witness:
  "recognition (new_tracker True)
   \<and> sorted (1000 # clock_readings
        [OnResult (event_of [result_hi]), OnEnd, OnResult (event_of [result_blank, result_late])])
   \<and> transcript_of (fold deliver
        [OnResult (event_of [result_hi]), OnEnd, OnResult (event_of [result_blank, result_late])]
        (start (new_tracker True) 1000))
      = [\<lparr>startTime = 0, endTime = 1, text = str ''hi''\<rparr>,
         \<lparr>startTime = 1, endTime = 2, text = str ''late''\<rparr>]
   \<and> sorted (map startTime (transcript_of (fold deliver
        [OnResult (event_of [result_hi]), OnEnd, OnResult (event_of [result_blank, result_late])]
        (start (new_tracker True) 1000))))"
  using tracker_segments_ordered
    [of "new_tracker True" 1000
        "[OnResult (event_of [result_hi]), OnEnd, OnResult (event_of [result_blank, result_late])]"]
  by (simp add: start_def new_tracker_def onresult_def onresult_body_def onend_def
      event_of_def result_hi_def result_blank_def result_late_def str_def trim_def
      isWhiteSpace_def Let_def transcript_of_def clock_readings_def)

text \<open>
  Claim C6. A result whose text trims to the empty string is discarded wherever it
  arrives, alone or in one event with other results: the loop body leaves the tracker
  as it was (no segment appended, the cursor unchanged), so the event has the effect of
  the same event without that result, an event has the effect of its results with
  non-empty trimmed text alone, an event of blank results only changes nothing, and the
  segment emitted next starts at the cursor as it stood before the blank result.
\<close>

theorem empty_text_discarded:
  assumes "trim (resultTranscript r) = []"
  shows "onresult_body r s = s
     \<and> transcript_of (onresult_body r s) = transcript_of s
     \<and> currentSegmentStart (onresult_body r s) = currentSegmentStart s
     \<and> (\<forall>ev pre post. drop (resultIndex ev) (results ev) = pre @ r # post \<longrightarrow>
           onresult s ev = onresult s \<lparr>resultIndex = 0, results = pre @ post\<rparr>)
     \<and> (\<forall>ev. onresult s ev =
           fold onresult_body
             (filter (\<lambda>r. trim (resultTranscript r) \<noteq> []) (drop (resultIndex ev) (results ev))) s)
     \<and> (\<forall>ev. (\<forall>r \<in> set (drop (resultIndex ev) (results ev)). trim (resultTranscript r) = []) \<longrightarrow>
           onresult s ev = s)
     \<and> (\<forall>r'. isFinal r' \<and> trim (resultTranscript r') \<noteq> [] \<longrightarrow>
           transcript_of (onresult_body r' (onresult_body r s)) = transcript_of s @
             [\<lparr>startTime = currentSegmentStart s,
               endTime = real_of_int (now r' - startTimeMs s) / 1000,
               text = trim (resultTranscript r')\<rparr>])"
proof -
  have same: "onresult_body r s = s" using assms by (rule onresult_body_empty)
  have skip: "\<forall>ev pre post. drop (resultIndex ev) (results ev) = pre @ r # post \<longrightarrow>
      onresult s ev = onresult s \<lparr>resultIndex = 0, results = pre @ post\<rparr>"
    using assms by (simp add: onresult_def fold_onresult_body_skip del: fold_append)
  have filt: "\<forall>ev. onresult s ev =
      fold onresult_body
        (filter (\<lambda>r. trim (resultTranscript r) \<noteq> []) (drop (resultIndex ev) (results ev))) s"
    unfolding onresult_def by (simp add: fold_onresult_body_filter [symmetric])
  have blank: "\<forall>ev. (\<forall>r \<in> set (drop (resultIndex ev) (results ev)). trim (resultTranscript r) = [])
      \<longrightarrow> onresult s ev = s"
    by (simp add: onresult_def fold_onresult_body_empty)
  have nxt: "\<forall>r'. isFinal r' \<and> trim (resultTranscript r') \<noteq> [] \<longrightarrow>
      transcript_of (onresult_body r' (onresult_body r s)) = transcript_of s @
        [\<lparr>startTime = currentSegmentStart s,
          endTime = real_of_int (now r' - startTimeMs s) / 1000,
          text = trim (resultTranscript r')\<rparr>]"
    unfolding same by (simp add: onresult_body_emits)
  from same skip filt blank nxt show ?thesis by simp
qed

text \<open>
  One event that delivers an utterance, a blank result and a second utterance: the
  second segment starts where the first ends, at 1, not at the 1.5 of the blank result.
\<close>

theorem empty_text_discarded_witness:
  "trim (resultTranscript result_blank) = []
   \<and> drop (resultIndex (event_of [result_hi, result_blank, result_late]))
        (results (event_of [result_hi, result_blank, result_late]))
      = [result_hi] @ result_blank # [result_late]
   \<and> isFinal result_late \<and> trim (resultTranscript result_late) \<noteq> []
   \<and> transcript_of (onresult (start (new_tracker True) 1000)
        (event_of [result_hi, result_blank, result_late]))
      = [\<lparr>startTime = 0, endTime = 1, text = str ''hi''\<rparr>,
         \<lparr>startTime = 1, endTime = 2, text = str ''late''\<rparr>]
   \<and> onresult (start (new_tracker True) 1000) (event_of [result_hi, result_blank, result_late])
      = onresult (start (new_tracker True) 1000) (event_of [result_hi, result_late])
   \<and> currentSegmentStart (onresult_body result_blank
        (onresult (start (new_tracker True) 1000) (event_of [result_hi]))) = 1"
  using empty_text_discarded [of result_blank "start (new_tracker True) 1000"]
  by (simp add: start_def new_tracker_def onresult_def onresult_body_def
      event_of_def result_hi_def result_blank_def result_late_def str_def trim_def
      isWhiteSpace_def Let_def transcript_of_def)

section \<open>Resolver: substring\<close>

lemma substring_in_range:
  "0 \<le> a \<Longrightarrow> a \<le> b \<Longrightarrow> b \<le> int (length s) \<Longrightarrow>
     substring s a b = take (nat (b - a)) (drop (nat a) s)"
  by (simp add: substring_def Let_def min_def max_def)

lemma substring_full: "substring s 0 (int (length s)) = s"
  by (simp add: substring_in_range)

lemma substring_append:
  assumes "0 \<le> a" "a \<le> b" "b \<le> c" "c \<le> int (length s)"
  shows "substring s a b @ substring s b c = substring s a c"
proof -
  have "take (nat (c - a)) (drop (nat a) s)
      = take (nat (b - a) + nat (c - b)) (drop (nat a) s)"
    using assms by (simp add: nat_add_distrib [symmetric])
  also have "\<dots> = take (nat (b - a)) (drop (nat a) s)
       @ take (nat (c - b)) (drop (nat (b - a)) (drop (nat a) s))"
    by (rule take_add)
  also have "drop (nat (b - a)) (drop (nat a) s) = drop (nat b) s"
    using assms by (simp add: nat_add_distrib [symmetric])
  finally show ?thesis using assms by (simp add: substring_in_range)
qed

lemma substring_nonempty:
  "0 \<le> a \<Longrightarrow> a < b \<Longrightarrow> b \<le> int (length s) \<Longrightarrow> substring s a b \<noteq> []"
  by (simp add: substring_in_range)

lemma substring_same: "substring s a a = []"
  by (simp add: substring_def Let_def)

section \<open>Resolver: boundary points\<close>

lemma set_add_props:
  "set (set_add x ps) = insert x (set ps)"
  "distinct ps \<Longrightarrow> distinct (set_add x ps)"
  "length (set_add x ps) \<le> Suc (length ps)"
  by (auto simp: set_add_def)

lemma add_note_points_set:
  "set (add_note_points len n ps) =
     set ps \<union> (case highlightStart n of None \<Rightarrow> {} | Some hs \<Rightarrow> {max 0 (min hs len)})
            \<union> (case highlightEnd n of None \<Rightarrow> {} | Some he \<Rightarrow> {max 0 (min he len)})"
  by (auto simp: add_note_points_def Let_def set_add_props split: option.splits)

lemma add_note_points_distinct:
  "distinct ps \<Longrightarrow> distinct (add_note_points len n ps)"
  by (simp add: add_note_points_def Let_def set_add_props split: option.splits)

lemma add_note_points_length:
  "length (add_note_points len n ps) \<le> length ps + 2"
proof -
  have a: "length (set_add x (set_add y ps)) \<le> Suc (Suc (length ps))" for x y
    using set_add_props(3) [of x "set_add y ps"] set_add_props(3) [of y ps] by simp
  have b: "length (set_add x ps) \<le> Suc (Suc (length ps))" for x
    using set_add_props(3) [of x ps] by simp
  show ?thesis
    by (simp add: add_note_points_def Let_def a b split: option.splits)
qed

lemma fold_add_note_points_distinct:
  "distinct ps \<Longrightarrow> distinct (fold (add_note_points len) ns ps)"
  by (induction ns arbitrary: ps) (simp_all add: add_note_points_distinct)

lemma fold_add_note_points_length:
  "length (fold (add_note_points len) ns ps) \<le> length ps + 2 * length ns"
proof (induction ns arbitrary: ps)
  case Nil
  show ?case by simp
next
  case (Cons n ns)
  have "length (fold (add_note_points len) ns (add_note_points len n ps))
          \<le> length (add_note_points len n ps) + 2 * length ns" by (rule Cons.IH)
  also have "\<dots> \<le> length ps + 2 + 2 * length ns"
    using add_note_points_length [of len n ps] by simp
  finally show ?case by simp
qed

lemma fold_add_note_points_set:
  "set (fold (add_note_points len) ns ps) =
     set ps \<union> {max 0 (min hs len) | hs n. n \<in> set ns \<and> highlightStart n = Some hs}
            \<union> {max 0 (min he len) | he n. n \<in> set ns \<and> highlightEnd n = Some he}"
proof (induction ns arbitrary: ps)
  case Nil
  show ?case by simp
next
  case (Cons n ns)
  show ?case
    unfolding fold_Cons comp_apply Cons.IH add_note_points_set
    by (auto split: option.splits)
qed

lemma boundary_points_distinct: "distinct (boundary_points txt ns)"
  by (simp add: boundary_points_def fold_add_note_points_distinct set_add_props)

lemma boundary_points_length: "length (boundary_points txt ns) \<le> 2 * length ns + 2"
proof -
  have "length (set_add (int (length txt)) (set_add 0 [])) \<le> 2"
    by (simp add: set_add_def)
  with fold_add_note_points_length [of "int (length txt)" ns "set_add (int (length txt)) (set_add 0 [])"]
  show ?thesis by (simp add: boundary_points_def)
qed

lemma boundary_points_set:
  "set (boundary_points txt ns) =
     {0, int (length txt)} \<union> {clamped txt hs | hs n. n \<in> set ns \<and> highlightStart n = Some hs}
            \<union> {clamped txt he | he n. n \<in> set ns \<and> highlightEnd n = Some he}"
  by (simp add: boundary_points_def fold_add_note_points_set set_add_props clamped_def insert_commute)

lemma boundary_points_range:
  "p \<in> set (boundary_points txt ns) \<Longrightarrow> 0 \<le> p \<and> p \<le> int (length txt)"
  by (auto simp: boundary_points_set clamped_def)

section \<open>Resolver: the loop over strictly ascending points\<close>

lemma in_text_tl: "in_text txt (p # ps) \<Longrightarrow> in_text txt ps"
  by (simp add: in_text_def)

lemma in_text_hd_le: "in_text txt (p # ps) \<Longrightarrow> q \<in> set (p # ps) \<Longrightarrow> p \<le> q"
  by (auto simp: in_text_def)

lemma in_text_last: "in_text txt (p # ps) \<Longrightarrow> p \<le> last (p # ps)"
  using in_text_hd_le [of _ p ps "last (p # ps)"] last_in_set [of "p # ps"] by blast

lemma render_parts_step:
  assumes "in_text txt (a # b # rest)"
  shows "render_parts txt ns (a # b # rest) =
     \<lparr>run_start = a, run_end = b, partText = substring txt a b,
      activeNote = find (covers (real_of_int a + (real_of_int b - real_of_int a) / 2)) (rev ns)\<rparr>
     # render_parts txt ns (b # rest)"
proof -
  from assms have "0 \<le> a" "a < b" "b \<le> int (length txt)" by (auto simp: in_text_def)
  then have "substring txt a b \<noteq> []" by (rule substring_nonempty)
  then show ?thesis by (simp add: Let_def)
qed

declare render_parts.simps(1) [simp del]

lemma render_parts_length:
  "in_text txt ps \<Longrightarrow> length (render_parts txt ns ps) = length ps - 1"
proof (induction ps rule: induct_list012)
  case (3 a b rest)
  from "3.prems" have "in_text txt (b # rest)" by (rule in_text_tl)
  with "3.IH"(2) "3.prems" show ?case by (simp add: render_parts_step)
qed simp_all

lemma render_parts_concat:
  "in_text txt ps \<Longrightarrow> ps \<noteq> [] \<Longrightarrow>
     concat (map partText (render_parts txt ns ps)) = substring txt (hd ps) (last ps)"
proof (induction ps rule: induct_list012)
  case 1
  then show ?case by simp
next
  case (2 p)
  show ?case by (simp add: substring_same)
next
  case (3 a b rest)
  from "3.prems"(1) have tl: "in_text txt (b # rest)" by (rule in_text_tl)
  have ab: "0 \<le> a" "a \<le> b" using "3.prems" by (auto simp: in_text_def)
  have bl: "b \<le> last (b # rest)" using tl by (rule in_text_last)
  have ll: "last (b # rest) \<le> int (length txt)" using tl by (auto simp: in_text_def)
  have "concat (map partText (render_parts txt ns (a # b # rest)))
      = substring txt a b @ substring txt b (last (b # rest))"
    using "3.IH"(2) [OF tl] "3.prems" by (simp add: render_parts_step)
  also have "\<dots> = substring txt a (last (b # rest))"
    using ab bl ll by (rule substring_append)
  finally show ?case by simp
qed

lemma render_parts_runs_at:
  "in_text txt ps \<Longrightarrow> ps \<noteq> [] \<Longrightarrow>
     length (runs_at (render_parts txt ns ps) k) = (if hd ps \<le> k \<and> k < last ps then 1 else 0)"
proof (induction ps rule: induct_list012)
  case 1
  then show ?case by simp
next
  case (2 p)
  show ?case by (simp add: runs_at_def)
next
  case (3 a b rest)
  from "3.prems"(1) have tl: "in_text txt (b # rest)" by (rule in_text_tl)
  have ab: "a < b" using "3.prems" by (auto simp: in_text_def)
  have bl: "b \<le> last (b # rest)" using tl by (rule in_text_last)
  have ih: "length (runs_at (render_parts txt ns (b # rest)) k)
      = (if b \<le> k \<and> k < last (b # rest) then 1 else 0)"
    using "3.IH"(2) [OF tl] by simp
  have "length (runs_at (render_parts txt ns (a # b # rest)) k)
      = (if a \<le> k \<and> k < b then 1 else 0) + length (runs_at (render_parts txt ns (b # rest)) k)"
    using "3.prems" by (simp add: render_parts_step runs_at_def)
  with ih ab bl show ?case by auto
qed

lemma render_parts_run:
  "in_text txt ps \<Longrightarrow> r \<in> set (render_parts txt ns ps) \<Longrightarrow>
     run_start r \<in> set ps \<and> run_end r \<in> set ps \<and> run_start r < run_end r
     \<and> (\<forall>p \<in> set ps. p \<le> run_start r \<or> run_end r \<le> p)
     \<and> partText r = substring txt (run_start r) (run_end r)
     \<and> activeNote r = find (covers (run_mid r)) (rev ns)"
proof (induction ps rule: induct_list012)
  case 1
  then show ?case by simp
next
  case (2 p)
  then show ?case by simp
next
  case (3 a b rest)
  from "3.prems"(1) have tl: "in_text txt (b # rest)" by (rule in_text_tl)
  have ab: "a < b" and rest: "\<forall>p \<in> set rest. b < p"
    using "3.prems"(1) by (auto simp: in_text_def)
  let ?r0 = "\<lparr>run_start = a, run_end = b, partText = substring txt a b,
      activeNote = find (covers (real_of_int a + (real_of_int b - real_of_int a) / 2)) (rev ns)\<rparr>"
  from "3.prems" have "r = ?r0 \<or> r \<in> set (render_parts txt ns (b # rest))"
    by (simp add: render_parts_step)
  then show ?case
  proof
    assume "r = ?r0"
    with ab rest show ?thesis by (auto simp: run_mid_def)
  next
    assume "r \<in> set (render_parts txt ns (b # rest))"
    from "3.IH"(2) [OF tl this]
    have ih: "run_start r \<in> set (b # rest)" "run_end r \<in> set (b # rest)" "run_start r < run_end r"
      "\<forall>p \<in> set (b # rest). p \<le> run_start r \<or> run_end r \<le> p"
      "partText r = substring txt (run_start r) (run_end r)"
      "activeNote r = find (covers (run_mid r)) (rev ns)" by simp_all
    have "b \<le> run_start r" using tl ih(1) by (rule in_text_hd_le)
    with ab ih show ?thesis by auto
  qed
qed

section \<open>Resolver: the sorted boundary points\<close>

lemma sorted_points_in_text: "in_text txt (sort (boundary_points txt ns))"
  by (simp add: in_text_def strict_sorted_iff boundary_points_distinct boundary_points_range)

lemma sorted_hd_last_bounds:
  fixes ps :: "int list"
  assumes "sorted ps" and "lo \<in> set ps" and "hi \<in> set ps"
    and "\<forall>p \<in> set ps. lo \<le> p \<and> p \<le> hi"
  shows "hd ps = lo \<and> last ps = hi"
proof -
  from assms(2) obtain a rest where ps: "ps = a # rest" by (cases ps) auto
  have "a \<le> lo" using assms(1,2) unfolding ps by auto
  moreover have "lo \<le> a" using assms(4) unfolding ps by simp
  ultimately have hd: "hd ps = lo" by (simp add: ps)
  have ne: "ps \<noteq> []" by (simp add: ps)
  then have "last ps \<in> set ps" by (rule last_in_set)
  then have le: "last ps \<le> hi" using assms(4) by blast
  from assms(3) obtain i where i: "i < length ps" "ps ! i = hi"
    by (auto simp: in_set_conv_nth)
  have "ps ! i \<le> ps ! (length ps - 1)"
    using assms(1) i(1) by (intro sorted_nth_mono) auto
  then have "hi \<le> last ps" using i(2) ne by (simp add: last_conv_nth)
  with le hd show ?thesis by simp
qed

lemma sorted_points_hd_last:
  "sort (boundary_points txt ns) \<noteq> [] \<and> hd (sort (boundary_points txt ns)) = 0
     \<and> last (sort (boundary_points txt ns)) = int (length txt)"
proof -
  let ?ps = "sort (boundary_points txt ns)"
  have mem: "0 \<in> set ?ps" "int (length txt) \<in> set ?ps" by (simp_all add: boundary_points_set)
  from mem(1) have ne: "?ps \<noteq> []" by (metis empty_iff empty_set)
  have rng: "\<forall>p \<in> set ?ps. 0 \<le> p \<and> p \<le> int (length txt)"
    using boundary_points_range by simp
  have srt: "sorted ?ps" by simp
  from sorted_hd_last_bounds [OF srt mem rng] ne show ?thesis by simp
qed

section \<open>Resolver: the whole function\<close>

lemma renderSegment_no_notes:
  "notes_of_segment notes index = [] \<Longrightarrow>
     renderSegment notes seg index =
       [\<lparr>run_start = 0, run_end = int (length (text seg)), partText = text seg, activeNote = None\<rparr>]"
  by (simp add: renderSegment_def Let_def)

lemma renderSegment_notes:
  "notes_of_segment notes index \<noteq> [] \<Longrightarrow>
     renderSegment notes seg index =
       render_parts (text seg) (notes_of_segment notes index)
         (sort (boundary_points (text seg) (notes_of_segment notes index)))"
  by (simp add: renderSegment_def Let_def)

lemma renderSegment_concat:
  "concat (map partText (renderSegment notes seg index)) = text seg"
proof (cases "notes_of_segment notes index = []")
  case True
  then show ?thesis by (simp add: renderSegment_no_notes)
next
  case False
  let ?ns = "notes_of_segment notes index"
  let ?ps = "sort (boundary_points (text seg) ?ns)"
  have "concat (map partText (render_parts (text seg) ?ns ?ps))
      = substring (text seg) (hd ?ps) (last ?ps)"
    using sorted_points_in_text sorted_points_hd_last by (intro render_parts_concat) blast+
  also have "\<dots> = text seg"
    using sorted_points_hd_last [of "text seg" ?ns] by (simp add: substring_full)
  finally show ?thesis using False by (simp add: renderSegment_notes)
qed

lemma renderSegment_runs_at:
  assumes "0 \<le> k" and "k < int (length (text seg))"
  shows "length (runs_at (renderSegment notes seg index) k) = 1"
proof (cases "notes_of_segment notes index = []")
  case True
  with assms show ?thesis by (simp add: renderSegment_no_notes runs_at_def)
next
  case False
  let ?ns = "notes_of_segment notes index"
  let ?ps = "sort (boundary_points (text seg) ?ns)"
  have "length (runs_at (render_parts (text seg) ?ns ?ps) k)
      = (if hd ?ps \<le> k \<and> k < last ?ps then 1 else 0)"
    using sorted_points_in_text sorted_points_hd_last by (intro render_parts_runs_at) blast+
  also have "\<dots> = 1"
    using sorted_points_hd_last [of "text seg" ?ns] assms by simp
  finally show ?thesis using False by (simp add: renderSegment_notes)
qed

lemma renderSegment_length:
  "length (renderSegment notes seg index) \<le> 2 * length (notes_of_segment notes index) + 1"
proof (cases "notes_of_segment notes index = []")
  case True
  then show ?thesis by (simp add: renderSegment_no_notes)
next
  case False
  let ?ns = "notes_of_segment notes index"
  let ?ps = "sort (boundary_points (text seg) ?ns)"
  have "length (render_parts (text seg) ?ns ?ps) = length ?ps - 1"
    using sorted_points_in_text by (rule render_parts_length)
  also have "\<dots> \<le> 2 * length ?ns + 1"
    using boundary_points_length [of "text seg" ?ns] by simp
  finally show ?thesis using False by (simp add: renderSegment_notes)
qed

lemma renderSegment_slices:
  assumes "r \<in> set (renderSegment notes seg index)"
  shows "partText r = substring (text seg) (run_start r) (run_end r)
     \<and> 0 \<le> run_start r \<and> run_start r \<le> run_end r \<and> run_end r \<le> int (length (text seg))"
proof (cases "notes_of_segment notes index = []")
  case True
  with assms show ?thesis by (simp add: renderSegment_no_notes substring_full)
next
  case False
  let ?ns = "notes_of_segment notes index"
  let ?ps = "sort (boundary_points (text seg) ?ns)"
  from assms False have "r \<in> set (render_parts (text seg) ?ns ?ps)"
    by (simp add: renderSegment_notes)
  from render_parts_run [OF sorted_points_in_text this]
  have "run_start r \<in> set ?ps" "run_end r \<in> set ?ps" "run_start r < run_end r"
    "partText r = substring (text seg) (run_start r) (run_end r)" by simp_all
  moreover have "\<forall>p \<in> set ?ps. 0 \<le> p \<and> p \<le> int (length (text seg))"
    using boundary_points_range by simp
  ultimately show ?thesis by auto
qed

section \<open>Resolver: the active note\<close>

lemma find_snoc:
  "find P (ys @ [x]) = (case find P ys of Some y \<Rightarrow> Some y | None \<Rightarrow> if P x then Some x else None)"
  by (induction ys) simp_all

lemma find_rev_last:
  "find P (rev xs) = (if filter P xs = [] then None else Some (last (filter P xs)))"
proof (induction xs)
  case Nil
  show ?case by simp
next
  case (Cons x xs)
  show ?case by (simp add: find_snoc Cons.IH)
qed

lemma find_rev_Some:
  "find P (rev xs) = Some x \<Longrightarrow> x \<in> set xs \<and> P x"
proof -
  assume "find P (rev xs) = Some x"
  then have ne: "filter P xs \<noteq> []" and x: "x = last (filter P xs)"
    by (simp_all add: find_rev_last split: if_splits)
  from ne have "last (filter P xs) \<in> set (filter P xs)" by (rule last_in_set)
  with x have "x \<in> set (filter P xs)" by simp
  then show ?thesis by simp
qed

lemma covers_int:
  "covers (real_of_int s + (real_of_int e - real_of_int s) / 2) n \<longleftrightarrow>
     (\<exists>hs he. highlightStart n = Some hs \<and> highlightEnd n = Some he \<and> 2 * hs \<le> s + e \<and> s + e \<le> 2 * he)"
proof -
  have a: "real_of_int hs \<le> real_of_int s + (real_of_int e - real_of_int s) / 2 \<longleftrightarrow> 2 * hs \<le> s + e" for hs
  proof -
    have "real_of_int hs \<le> real_of_int s + (real_of_int e - real_of_int s) / 2
        \<longleftrightarrow> real_of_int (2 * hs) \<le> real_of_int (s + e)" by (simp add: field_simps)
    then show ?thesis by (simp only: of_int_le_iff)
  qed
  have b: "real_of_int s + (real_of_int e - real_of_int s) / 2 \<le> real_of_int he \<longleftrightarrow> s + e \<le> 2 * he" for he
  proof -
    have "real_of_int s + (real_of_int e - real_of_int s) / 2 \<le> real_of_int he
        \<longleftrightarrow> real_of_int (s + e) \<le> real_of_int (2 * he)" by (simp add: field_simps)
    then show ?thesis by (simp only: of_int_le_iff)
  qed
  show ?thesis by (simp add: covers_def a b split: option.splits)
qed

lemma clamp_cover_iff:
  fixes s e hs he len :: int
  assumes "0 \<le> s" "s < e" "e \<le> len"
    and "max 0 (min hs len) \<le> s \<or> e \<le> max 0 (min hs len)"
    and "max 0 (min he len) \<le> s \<or> e \<le> max 0 (min he len)"
  shows "2 * hs \<le> s + e \<and> s + e \<le> 2 * he \<longleftrightarrow> max 0 (min hs len) \<le> s \<and> e \<le> max 0 (min he len)"
  using assms by (auto simp: max_def min_def split: if_splits)

lemma run_cover_iff:
  assumes r: "r \<in> set (renderSegment notes seg index)"
    and n: "n \<in> set (notes_of_segment notes index)"
    and hs: "highlightStart n = Some hs" and he: "highlightEnd n = Some he"
  shows "covers (run_mid r) n \<longleftrightarrow>
     clamped (text seg) hs \<le> run_start r \<and> run_end r \<le> clamped (text seg) he"
proof -
  let ?ns = "notes_of_segment notes index"
  let ?ps = "sort (boundary_points (text seg) ?ns)"
  from n have ne: "?ns \<noteq> []" by auto
  with r have "r \<in> set (render_parts (text seg) ?ns ?ps)" by (simp add: renderSegment_notes)
  from render_parts_run [OF sorted_points_in_text this]
  have run: "run_start r \<in> set ?ps" "run_end r \<in> set ?ps" "run_start r < run_end r"
    "\<forall>p \<in> set ?ps. p \<le> run_start r \<or> run_end r \<le> p" by simp_all
  have rng: "0 \<le> run_start r" "run_end r \<le> int (length (text seg))"
    using run(1,2) boundary_points_range by simp_all
  have "clamped (text seg) hs \<in> set ?ps" "clamped (text seg) he \<in> set ?ps"
    using n hs he by (auto simp: boundary_points_set)
  with run(4) have sep:
    "clamped (text seg) hs \<le> run_start r \<or> run_end r \<le> clamped (text seg) hs"
    "clamped (text seg) he \<le> run_start r \<or> run_end r \<le> clamped (text seg) he" by blast+
  have "covers (run_mid r) n \<longleftrightarrow> 2 * hs \<le> run_start r + run_end r \<and> run_start r + run_end r \<le> 2 * he"
    unfolding run_mid_def covers_int by (simp add: hs he)
  also have "\<dots> \<longleftrightarrow> clamped (text seg) hs \<le> run_start r \<and> run_end r \<le> clamped (text seg) he"
    unfolding clamped_def
    using rng(1) run(3) rng(2) sep [unfolded clamped_def] by (rule clamp_cover_iff)
  finally show ?thesis .
qed

lemma renderSegment_active:
  assumes "r \<in> set (renderSegment notes seg index)"
  shows "activeNote r = find (covers (run_mid r)) (rev (notes_of_segment notes index))"
proof (cases "notes_of_segment notes index = []")
  case True
  with assms show ?thesis by (simp add: renderSegment_no_notes)
next
  case False
  with assms have "r \<in> set (render_parts (text seg) (notes_of_segment notes index)
      (sort (boundary_points (text seg) (notes_of_segment notes index))))"
    by (simp add: renderSegment_notes)
  from render_parts_run [OF sorted_points_in_text this] show ?thesis by simp
qed

lemma active_note_range:
  assumes r: "r \<in> set (renderSegment notes seg index)" and a: "activeNote r = Some n"
  shows "n \<in> set (notes_of_segment notes index) \<and> covers (run_mid r) n
     \<and> (\<exists>hs he. highlightStart n = Some hs \<and> highlightEnd n = Some he
           \<and> clamped (text seg) hs \<le> run_start r \<and> run_end r \<le> clamped (text seg) he)"
proof -
  from renderSegment_active [OF r] a
  have "find (covers (run_mid r)) (rev (notes_of_segment notes index)) = Some n" by simp
  then have n: "n \<in> set (notes_of_segment notes index)" and c: "covers (run_mid r) n"
    by (auto dest: find_rev_Some)
  from c obtain hs he where h: "highlightStart n = Some hs" "highlightEnd n = Some he"
    by (auto simp: covers_def split: option.splits)
  from run_cover_iff [OF r n h] c h n show ?thesis by simp
qed

lemma renderSegment_nonempty_run:
  assumes r: "r \<in> set (renderSegment notes seg index)" and a: "activeNote r = Some n"
  shows "run_start r < run_end r"
proof (cases "notes_of_segment notes index = []")
  case True
  with assms show ?thesis by (simp add: renderSegment_no_notes)
next
  case False
  with r have "r \<in> set (render_parts (text seg) (notes_of_segment notes index)
      (sort (boundary_points (text seg) (notes_of_segment notes index))))"
    by (simp add: renderSegment_notes)
  from render_parts_run [OF sorted_points_in_text this] show ?thesis by simp
qed

section \<open>Resolver: the claims\<close>

text \<open>
  Claim C2. For every segment and every list of notes, the parts \<open>renderSegment\<close>
  produces, concatenated in order, are the segment's text; every offset from \<open>0\<close> up to
  the length of the text lies in exactly one run, each part being the slice of the text
  at its run's offsets; and there are at most \<open>2N + 1\<close> runs, \<open>N\<close> the number of notes
  of the segment.
\<close>

theorem renderSegment_partition:
  "concat (map partText (renderSegment notes seg index)) = text seg
   \<and> (\<forall>k. 0 \<le> k \<and> k < int (length (text seg)) \<longrightarrow>
          length (runs_at (renderSegment notes seg index) k) = 1)
   \<and> (\<forall>r \<in> set (renderSegment notes seg index).
          partText r = substring (text seg) (run_start r) (run_end r)
          \<and> 0 \<le> run_start r \<and> run_start r \<le> run_end r \<and> run_end r \<le> int (length (text seg)))
   \<and> length (renderSegment notes seg index) \<le> 2 * length (notes_of_segment notes index) + 1"
  using renderSegment_concat renderSegment_runs_at renderSegment_length renderSegment_slices
  by blast

text \<open>Two overlapping notes on a text of eight characters.\<close>

theorem renderSegment_partition_witness:
  "concat (map partText (renderSegment [note_A, note_B] example_segment 0)) = text example_segment
   \<and> (0::int) \<le> 4 \<and> 4 < int (length (text example_segment))
   \<and> length (runs_at (renderSegment [note_A, note_B] example_segment 0) 4) = 1
   \<and> map (\<lambda>r. (run_start r, run_end r, partText r)) (renderSegment [note_A, note_B] example_segment 0)
       = [(0, 3, str ''abc''), (3, 5, str ''de''), (5, 8, str ''fgh'')]
   \<and> length (renderSegment [note_A, note_B] example_segment 0)
       \<le> 2 * length (notes_of_segment [note_A, note_B] 0) + 1"
  using renderSegment_partition [of "[note_A, note_B]" example_segment 0]
  by (simp add: renderSegment_def notes_of_segment_def boundary_points_def add_note_points_def
      set_add_def substring_def covers_def render_parts.simps example_segment_def str_def
      Let_def note_A_def note_B_def runs_at_def)

text \<open>
  Claim C4. When at least one note of the segment covers the midpoint of a run, the
  run's active note is the last of the covering notes in the order of the list, that is
  the one added most recently.
\<close>

theorem last_covering_note_wins:
  assumes "r \<in> set (renderSegment notes seg index)"
    and "filter (covers (run_mid r)) (notes_of_segment notes index) \<noteq> []"
  shows "activeNote r = Some (last (filter (covers (run_mid r)) (notes_of_segment notes index)))"
  using renderSegment_active [OF assms(1)] assms(2) by (simp add: find_rev_last)

text \<open>
  The notes \<open>[0, 5)\<close> and \<open>[3, 8)\<close>, added in that order, on a text of eight
  characters: both cover the run from 3 to 5, and the run carries the second.
\<close>

theorem last_covering_note_wins_witness:
  "\<lparr>run_start = 3, run_end = 5, partText = str ''de'', activeNote = Some note_B\<rparr>
     \<in> set (renderSegment [note_A, note_B] example_segment 0)
   \<and> filter (covers (run_mid \<lparr>run_start = 3, run_end = 5, partText = str ''de'', activeNote = Some note_B\<rparr>))
        (notes_of_segment [note_A, note_B] 0) = [note_A, note_B]
   \<and> map (\<lambda>r. (run_start r, run_end r, map_option note_id (activeNote r)))
        (renderSegment [note_A, note_B] example_segment 0)
       = [(0, 3, Some ''A''), (3, 5, Some ''B''), (5, 8, Some ''B'')]"
  using last_covering_note_wins
    [of "\<lparr>run_start = 3, run_end = 5, partText = str ''de'', activeNote = Some note_B\<rparr>"
        "[note_A, note_B]" example_segment 0]
  by (simp add: renderSegment_def notes_of_segment_def boundary_points_def add_note_points_def
      set_add_def substring_def covers_def render_parts.simps example_segment_def str_def
      Let_def note_A_def note_B_def run_mid_def)

text \<open>
  Claim C10. The note that a run carries has both offsets, and its clamped range covers
  the whole run: the clamped start is at most the run's start and the clamped end at
  least the run's end. More generally, for every note of the segment with both offsets,
  covering the midpoint of a run is the same as covering the whole run with the clamped
  range, since the clamped offsets are boundary points.
\<close>

theorem active_note_covers_whole_run:
  assumes "r \<in> set (renderSegment notes seg index)"
  shows "(\<forall>n. activeNote r = Some n \<longrightarrow>
            (\<exists>hs he. highlightStart n = Some hs \<and> highlightEnd n = Some he
               \<and> clamped (text seg) hs \<le> run_start r \<and> run_end r \<le> clamped (text seg) he))
     \<and> (\<forall>n hs he. n \<in> set (notes_of_segment notes index)
            \<and> highlightStart n = Some hs \<and> highlightEnd n = Some he \<longrightarrow>
            (covers (run_mid r) n \<longleftrightarrow>
               clamped (text seg) hs \<le> run_start r \<and> run_end r \<le> clamped (text seg) he))"
  using active_note_range [OF assms] run_cover_iff [OF assms] by blast

text \<open>A note with offsets \<open>-2\<close> and \<open>20\<close>, clamped to \<open>0\<close> and \<open>8\<close>.\<close>

theorem active_note_covers_whole_run_witness:
  "\<lparr>run_start = 5, run_end = 8, partText = str ''fgh'', activeNote = Some note_wide\<rparr>
     \<in> set (renderSegment [note_A, note_wide] example_segment 0)
   \<and> note_wide \<in> set (notes_of_segment [note_A, note_wide] 0)
   \<and> highlightStart note_wide = Some (- 2) \<and> highlightEnd note_wide = Some 20
   \<and> clamped (text example_segment) (- 2) = 0 \<and> clamped (text example_segment) 20 = 8
   \<and> covers (run_mid \<lparr>run_start = 5, run_end = 8, partText = str ''fgh'', activeNote = Some note_wide\<rparr>)
        note_wide"
  using active_note_covers_whole_run
    [of "\<lparr>run_start = 5, run_end = 8, partText = str ''fgh'', activeNote = Some note_wide\<rparr>"
        "[note_A, note_wide]" example_segment 0]
  by (simp add: renderSegment_def notes_of_segment_def boundary_points_def add_note_points_def
      set_add_def substring_def covers_def render_parts.simps example_segment_def str_def
      Let_def note_A_def note_wide_def run_mid_def clamped_def)

text \<open>
  Claim C9. A note whose clamped start lies beyond its clamped end is the active note of
  no run, whatever the other notes are; and \<open>renderSegment\<close>, which is total, still
  returns a partition of the whole text: the parts concatenate to the text and every
  offset lies in exactly one run.
\<close>

theorem malformed_note_never_active:
  assumes "malformed (text seg) n"
  shows "(\<forall>r \<in> set (renderSegment notes seg index). activeNote r \<noteq> Some n)
     \<and> concat (map partText (renderSegment notes seg index)) = text seg
     \<and> (\<forall>k. 0 \<le> k \<and> k < int (length (text seg)) \<longrightarrow>
          length (runs_at (renderSegment notes seg index) k) = 1)"
proof -
  have "activeNote r \<noteq> Some n" if r: "r \<in> set (renderSegment notes seg index)" for r
  proof
    assume a: "activeNote r = Some n"
    from active_note_range [OF r a] obtain hs he where
      h: "highlightStart n = Some hs" "highlightEnd n = Some he"
        "clamped (text seg) hs \<le> run_start r" "run_end r \<le> clamped (text seg) he" by blast
    from renderSegment_nonempty_run [OF r a] h(3,4)
    have "clamped (text seg) hs < clamped (text seg) he" by simp
    with assms h(1,2) show False by (simp add: malformed_def)
  qed
  with renderSegment_concat renderSegment_runs_at show ?thesis by blast
qed

text \<open>A note from 6 to 2 beside a well-formed one.\<close>

theorem malformed_note_never_active_witness:
  "malformed (text example_segment) note_inverted
   \<and> map (\<lambda>r. (run_start r, run_end r, map_option note_id (activeNote r)))
        (renderSegment [note_A, note_inverted] example_segment 0)
       = [(0, 2, Some ''A''), (2, 5, Some ''A''), (5, 6, None), (6, 8, None)]
   \<and> concat (map partText (renderSegment [note_A, note_inverted] example_segment 0))
       = text example_segment"
  using malformed_note_never_active [of example_segment note_inverted "[note_A, note_inverted]" 0]
  by (simp add: renderSegment_def notes_of_segment_def boundary_points_def add_note_points_def
      set_add_def substring_def covers_def render_parts.simps example_segment_def str_def
      Let_def note_A_def note_inverted_def malformed_def clamped_def)

section \<open>Analyzer: rounding to a double\<close>

declare binade.simps [simp del]

lemma pow2_pos: "0 < (2::real) powi k"
  by (simp add: zero_less_power_int)

lemma pow2_add: "(2::real) powi (a + b) = 2 powi a * 2 powi b"
  by (simp add: power_int_add)

lemma pow2_mono: "a \<le> b \<Longrightarrow> (2::real) powi a \<le> 2 powi b"
  by (rule power_int_increasing) simp_all

lemma pow2_strict_mono: "a < b \<Longrightarrow> (2::real) powi a < 2 powi b"
  by (rule power_int_strict_increasing) simp_all

lemma pow2_less_cancel: "(2::real) powi a < 2 powi b \<Longrightarrow> a < b"
  using pow2_mono [of b a] by (cases "a < b") simp_all

lemma pow2_int: "0 \<le> k \<Longrightarrow> (2::real) powi k = of_int (2 ^ nat k)"
  by (simp add: power_int_def)

lemma binade_bounds:
  "0 < a \<Longrightarrow> 2 powi binade a \<le> a \<and> a < 2 powi (binade a + 1)"
proof (induction a rule: binade.induct)
  case (1 a)
  show ?case
  proof (cases "2 \<le> a")
    case True
    then have b: "binade a = binade (a / 2) + 1" by (subst binade.simps) simp
    from "1.IH"(1) [OF True] "1.prems"
    have "2 powi binade (a / 2) \<le> a / 2" "a / 2 < 2 powi (binade (a / 2) + 1)" by simp_all
    then have "2 powi binade (a / 2) * 2 \<le> a" "a < 2 powi (binade (a / 2) + 1) * 2" by simp_all
    then show ?thesis unfolding b by (simp add: pow2_add)
  next
    case False
    show ?thesis
    proof (cases "a < 1")
      case True
      with "1.prems" False have b: "binade a = binade (2 * a) - 1" by (subst binade.simps) simp
      from "1.IH"(2) [OF False] "1.prems" True
      have h: "2 powi binade (2 * a) \<le> 2 * a" "2 * a < 2 powi (binade (2 * a) + 1)" by simp_all
      have "(2::real) powi binade (2 * a) = 2 powi (binade (2 * a) - 1) * 2"
        using pow2_add [of "binade (2 * a) - 1" 1] by simp
      moreover have "(2::real) powi (binade (2 * a) + 1) = 2 powi binade (2 * a) * 2"
        using pow2_add [of "binade (2 * a)" 1] by simp
      ultimately show ?thesis using h unfolding b by simp
    next
      case False
      with \<open>\<not> 2 \<le> a\<close> have "binade a = 0" by (subst binade.simps) simp
      with False \<open>\<not> 2 \<le> a\<close> show ?thesis by simp
    qed
  qed
qed

lemma binade_eq:
  assumes "2 powi e \<le> a" and "a < 2 powi (e + 1)"
  shows "binade a = e"
proof -
  have "0 < a" using pow2_pos [of e] assms(1) by linarith
  from binade_bounds [OF this]
  have b: "2 powi binade a \<le> a" "a < 2 powi (binade a + 1)" by simp_all
  have "(2::real) powi e < 2 powi (binade a + 1)" using assms(1) b(2) by linarith
  then have "e < binade a + 1" by (rule pow2_less_cancel)
  moreover have "(2::real) powi binade a < 2 powi (e + 1)" using assms(2) b(1) by linarith
  then have "binade a < e + 1" by (rule pow2_less_cancel)
  ultimately show ?thesis by simp
qed

lemma round_half_even_of_int: "round_half_even (of_int n) = n"
  by (simp add: round_half_even_def)

lemma round_half_even_le: "q \<le> of_int n \<Longrightarrow> round_half_even q \<le> n"
proof -
  assume q: "q \<le> of_int n"
  have f: "\<lfloor>q\<rfloor> \<le> n" using q by (simp add: floor_le_iff)
  show ?thesis
  proof (cases "q = of_int \<lfloor>q\<rfloor>")
    case True
    then have "round_half_even q = \<lfloor>q\<rfloor>" by (simp add: round_half_even_def Let_def)
    with f show ?thesis by simp
  next
    case False
    then have "of_int \<lfloor>q\<rfloor> < q" using of_int_floor_le [of q] by linarith
    with q have "\<lfloor>q\<rfloor> < n" by linarith
    moreover have "round_half_even q \<le> \<lfloor>q\<rfloor> + 1" by (simp add: round_half_even_def Let_def)
    ultimately show ?thesis by simp
  qed
qed

lemma round_half_even_ge: "of_int n \<le> q \<Longrightarrow> n \<le> round_half_even q"
proof -
  assume "of_int n \<le> q"
  then have "n \<le> \<lfloor>q\<rfloor>" by (simp add: le_floor_iff)
  moreover have "\<lfloor>q\<rfloor> \<le> round_half_even q" by (simp add: round_half_even_def Let_def)
  ultimately show ?thesis by simp
qed

lemma ulp_pos: "0 < ulp x"
  by (simp add: ulp_def pow2_pos)

lemma nearest_nonneg: "0 \<le> x \<Longrightarrow> 0 \<le> nearest x"
proof -
  assume "0 \<le> x"
  then have "of_int 0 \<le> x / ulp x" using ulp_pos [of x] by simp
  then have "0 \<le> round_half_even (x / ulp x)" by (rule round_half_even_ge)
  then show ?thesis using ulp_pos [of x] by (simp add: nearest_def)
qed

lemma nearest_nonpos: "x \<le> 0 \<Longrightarrow> nearest x \<le> 0"
proof -
  assume "x \<le> 0"
  then have "x / ulp x \<le> of_int 0" using ulp_pos [of x] by (simp add: divide_nonpos_pos)
  then have "round_half_even (x / ulp x) \<le> 0" by (rule round_half_even_le)
  then show ?thesis using ulp_pos [of x] by (simp add: nearest_def mult_nonpos_nonneg)
qed

lemma pow2_on_grid:
  assumes "max (binade \<bar>x\<bar>) (- 1022) - 52 \<le> k"
  shows "2 powi k = of_int (2 ^ nat (k - (max (binade \<bar>x\<bar>) (- 1022) - 52))) * ulp x"
proof -
  let ?g = "max (binade \<bar>x\<bar>) (- 1022) - 52"
  have "(2::real) powi k = 2 powi ((k - ?g) + ?g)" by simp
  also have "\<dots> = 2 powi (k - ?g) * 2 powi ?g" by (rule pow2_add)
  also have "2 powi (k - ?g) = (of_int (2 ^ nat (k - ?g)) :: real)"
    using assms by (intro pow2_int) simp
  finally show ?thesis by (simp add: ulp_def)
qed

lemma binade_le:
  assumes "0 < x" and "x \<le> 2 powi k"
  shows "binade x \<le> k"
proof (rule ccontr)
  assume "\<not> binade x \<le> k"
  then have "(2::real) powi k < 2 powi binade x" by (intro pow2_strict_mono) simp
  with binade_bounds [OF assms(1)] assms(2) show False by linarith
qed

lemma nearest_le_pow2:
  assumes "0 < x" and "x \<le> 2 powi k" and "- 1074 \<le> k"
  shows "nearest x \<le> 2 powi k"
proof -
  let ?g = "max (binade \<bar>x\<bar>) (- 1022) - 52"
  have "binade \<bar>x\<bar> \<le> k" using assms(1,2) by (intro binade_le) simp_all
  with assms(3) have g: "?g \<le> k" by simp
  from pow2_on_grid [OF g] have p: "2 powi k = of_int (2 ^ nat (k - ?g)) * ulp x" .
  have "x / ulp x \<le> of_int (2 ^ nat (k - ?g))"
    using assms(2) ulp_pos [of x] unfolding p by (simp add: field_simps)
  then have "round_half_even (x / ulp x) \<le> 2 ^ nat (k - ?g)" by (rule round_half_even_le)
  then have "of_int (round_half_even (x / ulp x)) \<le> (of_int (2 ^ nat (k - ?g)) :: real)"
    by (simp only: of_int_le_iff)
  then have "nearest x \<le> of_int (2 ^ nat (k - ?g)) * ulp x"
    unfolding nearest_def using ulp_pos [of x] by (intro mult_right_mono) simp_all
  with p show ?thesis by simp
qed

lemma nearest_ge_grid:
  assumes "2 powi k \<le> x" and "max (binade \<bar>x\<bar>) (- 1022) - 52 \<le> k"
  shows "2 powi k \<le> nearest x"
proof -
  let ?g = "max (binade \<bar>x\<bar>) (- 1022) - 52"
  from pow2_on_grid [OF assms(2)] have p: "2 powi k = of_int (2 ^ nat (k - ?g)) * ulp x" .
  have "of_int (2 ^ nat (k - ?g)) \<le> x / ulp x"
    using assms(1) ulp_pos [of x] unfolding p by (simp add: field_simps)
  then have "2 ^ nat (k - ?g) \<le> round_half_even (x / ulp x)" by (rule round_half_even_ge)
  then have "(of_int (2 ^ nat (k - ?g)) :: real) \<le> of_int (round_half_even (x / ulp x))"
    by (simp only: of_int_le_iff)
  then have "of_int (2 ^ nat (k - ?g)) * ulp x \<le> nearest x"
    unfolding nearest_def using ulp_pos [of x] by (intro mult_right_mono) simp_all
  with p show ?thesis by simp
qed

lemma nearest_ge_pow2:
  assumes "2 powi k \<le> x" and "- 1074 \<le> k"
  shows "2 powi k \<le> nearest x"
proof -
  let ?b = "binade \<bar>x\<bar>"
  have x: "0 < x" using pow2_pos [of k] assms(1) by linarith
  show ?thesis
  proof (cases "max ?b (- 1022) - 52 \<le> k")
    case True
    with assms(1) show ?thesis by (rule nearest_ge_grid)
  next
    case False
    with assms(2) have b: "max ?b (- 1022) = ?b" "k < ?b" by simp_all
    have "2 powi ?b \<le> x" using binade_bounds [of "\<bar>x\<bar>"] x by simp
    moreover have "max ?b (- 1022) - 52 \<le> ?b" using b(1) by simp
    ultimately have "2 powi ?b \<le> nearest x" by (rule nearest_ge_grid)
    moreover have "(2::real) powi k \<le> 2 powi ?b" using b(2) by (intro pow2_mono) simp
    ultimately show ?thesis by linarith
  qed
qed

lemma nearest_exact:
  assumes x: "x = of_int m * 2 powi k" and m: "\<bar>m\<bar> < 2 ^ 53" and k: "- 1074 \<le> k"
  shows "nearest x = x"
proof (cases "m = 0")
  case True
  then show ?thesis by (simp add: x nearest_def round_half_even_def)
next
  case False
  define b where "b = binade \<bar>x\<bar>"
  define g where "g = max b (- 1022) - 52"
  define u where "u = ulp x"
  have u: "u = 2 powi g" "0 < u" by (simp_all add: u_def g_def b_def ulp_def pow2_pos)
  have ax: "\<bar>x\<bar> = of_int \<bar>m\<bar> * 2 powi k"
    using pow2_pos [of k] by (simp add: x abs_mult)
  have pos: "0 < \<bar>x\<bar>" using False pow2_pos [of k] by (simp add: x)
  have g: "g \<le> k"
  proof (rule ccontr)
    assume n: "\<not> g \<le> k"
    with k have bk: "k + 53 \<le> b" by (simp add: g_def)
    have "of_int \<bar>m\<bar> < (2::real) ^ 53"
      using m by (metis of_int_less_iff of_int_numeral of_int_power)
    then have "\<bar>x\<bar> < 2 ^ 53 * 2 powi k" unfolding ax using pow2_pos [of k] by simp
    also have "\<dots> = 2 powi (k + 53)" using pow2_add [of k 53] by simp
    also have "\<dots> \<le> 2 powi b" using bk by (rule pow2_mono)
    also have "\<dots> \<le> \<bar>x\<bar>" using binade_bounds [OF pos] by (simp add: b_def)
    finally show False by simp
  qed
  define N :: int where "N = 2 ^ nat (k - g)"
  have "(2::real) powi k = 2 powi ((k - g) + g)" by simp
  also have "\<dots> = 2 powi (k - g) * 2 powi g" by (rule pow2_add)
  also have "2 powi (k - g) = (of_int N :: real)"
    unfolding N_def using g by (intro pow2_int) simp
  finally have p: "2 powi k = of_int N * u" by (simp add: u)
  have xu: "x = of_int (m * N) * u" by (simp add: x p)
  then have "x / u = of_int (m * N)" using u(2) by simp
  then have "round_half_even (x / u) = m * N" by (simp only: round_half_even_of_int)
  then have "nearest x = of_int (m * N) * u" by (simp only: nearest_def u_def)
  with xu show ?thesis by simp
qed

lemma huge_pos: "0 < huge"
  by (simp add: huge_def pow2_pos)

lemma to_double_exact:
  assumes "x = of_int m * 2 powi k" and "\<bar>m\<bar> < 2 ^ 53" and "- 1074 \<le> k"
    and "\<bar>x\<bar> < huge"
  shows "to_double x = Finite x"
  using nearest_exact [OF assms(1-3)] assms(4) by (simp add: to_double_def abs_less_iff)

lemma to_double_int:
  assumes "\<bar>m\<bar> < 2 ^ 53"
  shows "to_double (of_int m) = Finite (of_int m)"
proof (rule to_double_exact [where m = m and k = 0])
  show "real_of_int m = real_of_int m * 2 powi 0" by simp
  show "\<bar>m\<bar> < 2 ^ 53" by fact
  show "- 1074 \<le> (0::int)" by simp
  have "\<bar>real_of_int m\<bar> < 2 powi 53"
    using assms by (metis of_int_abs of_int_less_iff of_int_numeral of_int_power power_int_numeral)
  also have "\<dots> \<le> huge" unfolding huge_def by (rule pow2_mono) simp
  finally show "\<bar>real_of_int m\<bar> < huge" .
qed

lemma to_double_not_NaN: "to_double x \<noteq> NaN"
  by (simp add: to_double_def)

lemma to_double_nonneg:
  "0 \<le> x \<Longrightarrow> to_double x = PosInf \<or> (\<exists>y. to_double x = Finite y \<and> 0 \<le> y)"
  using nearest_nonneg [of x] huge_pos by (auto simp: to_double_def)

lemma to_double_nonpos:
  "x \<le> 0 \<Longrightarrow> to_double x = NegInf \<or> (\<exists>y. to_double x = Finite y \<and> y \<le> 0)"
  using nearest_nonpos [of x] huge_pos by (auto simp: to_double_def)

lemma to_double_overflow: "huge \<le> x \<Longrightarrow> to_double x = PosInf"
  using nearest_ge_pow2 [of 1024 x] by (simp add: to_double_def huge_def del: power_int_numeral)

lemma to_double_ge_pow2:
  assumes "2 powi k \<le> x" and "- 1074 \<le> k"
  shows "to_double x = PosInf \<or> (\<exists>y. to_double x = Finite y \<and> 2 powi k \<le> y)"
proof -
  have "- huge < nearest x"
    using nearest_ge_pow2 [OF assms] huge_pos pow2_pos [of k] by linarith
  with nearest_ge_pow2 [OF assms] show ?thesis by (simp add: to_double_def)
qed

lemma to_double_le_pow2:
  assumes "0 \<le> x" and "x \<le> 2 powi k" and "- 1074 \<le> k" and "k \<le> 1023"
  shows "\<exists>y. to_double x = Finite y \<and> 0 \<le> y \<and> y \<le> 2 powi k"
proof -
  have n: "nearest x \<le> 2 powi k"
  proof (cases "x = 0")
    case True
    then show ?thesis using pow2_pos [of k] by (simp add: nearest_def round_half_even_def)
  next
    case False
    with assms(1) have "0 < x" by simp
    then show ?thesis using assms(2,3) by (rule nearest_le_pow2)
  qed
  have "(2::real) powi k < huge" unfolding huge_def using assms(4) by (intro pow2_strict_mono) simp
  with n have "nearest x < huge" by linarith
  moreover have "- huge < nearest x" using nearest_nonneg [OF assms(1)] huge_pos by linarith
  ultimately show ?thesis using n nearest_nonneg [OF assms(1)] by (simp add: to_double_def)
qed

lemma to_double_zero: "to_double 0 = Finite 0"
  using to_double_int [of 0] by simp

lemma to_double_one: "to_double 1 = Finite 1"
  using to_double_int [of 1] by simp

lemma to_double_numeral:
  "numeral n < (2::int) ^ 53 \<Longrightarrow> to_double (numeral n) = Finite (numeral n)"
  using to_double_int [of "numeral n"] by simp

lemma to_double_halves:
  assumes "\<bar>m\<bar> < 2 ^ 53"
  shows "to_double (of_int m / 2) = Finite (of_int m / 2)"
proof (rule to_double_exact [where m = m and k = "- 1"])
  show "real_of_int m / 2 = real_of_int m * 2 powi (- 1)" by (simp add: power_int_minus)
  show "\<bar>m\<bar> < 2 ^ 53" by fact
  show "- 1074 \<le> (- 1 :: int)" by simp
  have "\<bar>real_of_int m\<bar> < 2 powi 53"
    using assms by (metis of_int_abs of_int_less_iff of_int_numeral of_int_power power_int_numeral)
  then have "\<bar>real_of_int m / 2\<bar> < 2 powi 53" by simp
  also have "\<dots> \<le> huge" unfolding huge_def by (rule pow2_mono) simp
  finally show "\<bar>real_of_int m / 2\<bar> < huge" .
qed

lemma to_double_half: "to_double (1 / 2) = Finite (1 / 2)"
  using to_double_halves [of 1] by simp

lemma to_double_five_halves: "to_double (5 / 2) = Finite (5 / 2)"
  using to_double_halves [of 5] by simp

section \<open>Analyzer: totals and the guard\<close>

lemma guarded_wpm_guard: "d \<le> 0 \<Longrightarrow> guarded_wpm w d = Finite 0"
  using to_double_nonpos [of d] by (auto simp: guarded_wpm_def)

lemma guarded_wpm_divisor: "js_gt (to_double d) (Finite 0) \<Longrightarrow> to_double d \<noteq> Finite 0"
  by (cases "to_double d") auto

lemma rounded_product_range:
  assumes "0 \<le> q"
  shows "js_round (js_times (Finite q) (Finite 60)) = PosInf
     \<or> (\<exists>n. 0 \<le> n \<and> js_round (js_times (Finite q) (Finite 60)) = Finite (of_int n))"
proof -
  have "0 \<le> q * 60" using assms by simp
  from to_double_nonneg [OF this] show ?thesis
  proof
    assume "to_double (q * 60) = PosInf"
    then show ?thesis by simp
  next
    assume "\<exists>y. to_double (q * 60) = Finite y \<and> 0 \<le> y"
    then obtain y where y: "to_double (q * 60) = Finite y" "0 \<le> y" by blast
    then have "0 \<le> \<lfloor>y + 1 / 2\<rfloor>" by simp
    with y(1) show ?thesis by simp
  qed
qed

lemma guarded_wpm_range:
  "guarded_wpm w d = PosInf \<or> (\<exists>n. 0 \<le> n \<and> guarded_wpm w d = Finite (of_int n))"
proof (cases "js_gt (to_double d) (Finite 0)")
  case False
  then have "guarded_wpm w d = Finite (of_int 0)" by (simp add: guarded_wpm_def)
  then show ?thesis by blast
next
  case True
  show ?thesis
  proof (cases "to_double d")
    case (Finite y)
    with True have y: "0 < y" by simp
    then have "0 \<le> real w / y" by simp
    from to_double_nonneg [OF this] show ?thesis
    proof
      assume "to_double (real w / y) = PosInf"
      with Finite True y show ?thesis by (simp add: guarded_wpm_def)
    next
      assume "\<exists>q. to_double (real w / y) = Finite q \<and> 0 \<le> q"
      then obtain q where q: "to_double (real w / y) = Finite q" "0 \<le> q" by blast
      with Finite True y rounded_product_range [OF q(2)] show ?thesis
        by (simp add: guarded_wpm_def)
    qed
  next
    case PosInf
    with True rounded_product_range [of 0] show ?thesis by (simp add: guarded_wpm_def)
  next
    case NegInf
    with True show ?thesis by simp
  next
    case NaN
    with True show ?thesis by simp
  qed
qed

lemma guarded_wpm_finite:
  assumes d: "1 / 1024 \<le> d" and w: "w \<le> 2 ^ 40"
  shows "\<exists>n. 0 \<le> n \<and> guarded_wpm w d = Finite (of_int n)"
proof -
  have fin: "\<exists>n. 0 \<le> n \<and> js_round (js_times (Finite q) (Finite 60)) = Finite (of_int n)"
    if q: "0 \<le> q" "q \<le> 2 powi 50" for q
  proof -
    have "q * 60 \<le> 2 powi 50 * 2 powi 6" using q by (intro mult_mono) simp_all
    also have "\<dots> = 2 powi 56" using pow2_add [of 50 6] by simp
    finally have "q * 60 \<le> 2 powi 56" .
    moreover have "0 \<le> q * 60" using q(1) by simp
    ultimately obtain y where y: "to_double (q * 60) = Finite y" "0 \<le> y"
      using to_double_le_pow2 [of "q * 60" 56] by auto
    then have "0 \<le> \<lfloor>y + 1 / 2\<rfloor>" by simp
    with y(1) show ?thesis by simp
  qed
  have "(2::real) powi (- 10) = 1 / 1024" by (simp add: power_int_minus_divide)
  with d have "2 powi (- 10) \<le> d" by simp
  moreover have "- 1074 \<le> (- 10 :: int)" by simp
  ultimately have "to_double d = PosInf \<or> (\<exists>y. to_double d = Finite y \<and> 2 powi (- 10) \<le> y)"
    by (rule to_double_ge_pow2)
  then show ?thesis
  proof
    assume inf: "to_double d = PosInf"
    from fin [of 0] obtain n where
      "0 \<le> n" "js_round (js_times (Finite 0) (Finite 60)) = Finite (of_int n)"
      using pow2_pos [of 50] by auto
    with inf show ?thesis by (auto simp: guarded_wpm_def)
  next
    assume "\<exists>y. to_double d = Finite y \<and> 2 powi (- 10) \<le> y"
    then obtain y where y: "to_double d = Finite y" "2 powi (- 10) \<le> y" by blast
    have ypos: "0 < y" using y(2) pow2_pos [of "- 10"] by linarith
    have "real w \<le> 2 powi 40"
      using w by (metis of_nat_le_iff of_nat_numeral of_nat_power power_int_numeral)
    then have "real w \<le> 2 powi 50 * 2 powi (- 10)" using pow2_add [of 50 "- 10"] by simp
    also have "\<dots> \<le> 2 powi 50 * y" using y(2) pow2_pos [of 50] by (intro mult_left_mono) simp_all
    finally have "real w / y \<le> 2 powi 50" using ypos by (simp add: field_simps)
    moreover have "0 \<le> real w / y" using ypos by simp
    ultimately obtain q where q: "to_double (real w / y) = Finite q" "0 \<le> q" "q \<le> 2 powi 50"
      using to_double_le_pow2 [of "real w / y" 50] by auto
    from fin [OF q(2,3)] y(1) ypos q(1) show ?thesis by (simp add: guarded_wpm_def)
  qed
qed

lemma guarded_wpm_tiny: "guarded_wpm 1 tiny = PosInf"
proof -
  have t: "to_double tiny = Finite tiny"
  proof (rule to_double_exact [where m = 1 and k = "- 1020"])
    show "tiny = real_of_int 1 * 2 powi (- 1020)" by (simp only: tiny_def of_int_1 mult_1)
    show "\<bar>1::int\<bar> < 2 ^ 53" by simp
    show "- 1074 \<le> (- 1020 :: int)" by simp
    have "tiny < huge" unfolding tiny_def huge_def by (rule pow2_strict_mono) simp
    then show "\<bar>tiny\<bar> < huge" using pow2_pos [of "- 1020"] by (simp only: tiny_def abs_of_pos)
  qed
  have pos: "0 < tiny" unfolding tiny_def by (rule pow2_pos)
  have inv: "1 / tiny = 2 powi 1020"
    unfolding tiny_def using power_int_minus_divide [of "2::real" "- 1020"]
    by (simp only: minus_minus)
  have q: "to_double (2 powi 1020) = Finite (2 powi 1020)"
  proof (rule to_double_exact [where m = 1 and k = 1020])
    show "(2::real) powi 1020 = real_of_int 1 * 2 powi 1020" by (simp only: of_int_1 mult_1)
    show "\<bar>1::int\<bar> < 2 ^ 53" by simp
    show "- 1074 \<le> (1020 :: int)" by simp
    have "(2::real) powi 1020 < huge" unfolding huge_def by (rule pow2_strict_mono) simp
    then show "\<bar>(2::real) powi 1020\<bar> < huge" using pow2_pos [of 1020] by (simp only: abs_of_pos)
  qed
  have "huge = 2 powi 1020 * 2 powi 4" unfolding huge_def using pow2_add [of 1020 4] by simp
  also have "\<dots> \<le> 2 powi 1020 * 60" using pow2_pos [of 1020] by (intro mult_left_mono) simp_all
  finally have "to_double (2 powi 1020 * 60) = PosInf" by (rule to_double_overflow)
  then have "js_round (js_times (Finite (2 powi 1020)) (Finite 60)) = PosInf"
    by (simp only: js_times.simps js_round.simps)
  moreover have "js_divide (Finite (real 1)) (Finite tiny) = Finite (2 powi 1020)"
    using pos inv q by (simp only: js_divide.simps of_nat_1) simp
  moreover have "js_gt (Finite tiny) (Finite 0)" using pos by simp
  ultimately show ?thesis by (simp only: guarded_wpm_def t Let_def if_True)
qed

lemma fold_stat_step:
  "fold stat_step ts (acc, n) =
     (acc @ map (\<lambda>seg. \<lparr>startTime = startTime seg, endTime = endTime seg, text = text seg,
                         wpm = guarded_wpm (words_of seg) (endTime seg - startTime seg)\<rparr>) ts,
      n + sum_list (map words_of ts))"
  by (induction ts arbitrary: acc n) (simp_all add: stat_step_def Let_def)

lemma speed_stats_nonempty:
  assumes "transcript \<noteq> []"
  shows "speed_stats transcript =
     \<lparr>globalWpm = guarded_wpm (sum_list (map words_of transcript))
                    (endTime (last transcript) - startTime (hd transcript)),
      totalWords = sum_list (map words_of transcript),
      totalDuration = endTime (last transcript) - startTime (hd transcript),
      segmentStats = map (\<lambda>seg. \<lparr>startTime = startTime seg, endTime = endTime seg, text = text seg,
                         wpm = guarded_wpm (words_of seg) (endTime seg - startTime seg)\<rparr>) transcript\<rparr>"
  using assms by (simp add: speed_stats_def fold_stat_step Let_def hd_conv_nth last_conv_nth)

lemma speed_stats_empty:
  "speed_stats [] = \<lparr>globalWpm = Finite 0, totalWords = 0, totalDuration = 0, segmentStats = []\<rparr>"
  by (simp add: speed_stats_def)

section \<open>Analyzer: word count against token count\<close>

lemma count_tokens_dropWhile:
  "count_tokens False (dropWhile isWhiteSpace s) = count_tokens False s"
  by (induction s) simp_all

lemma split_ws_length:
  "s = [] \<or> \<not> isWhiteSpace (last s) \<Longrightarrow> length (split_ws piece s) = count_tokens True s + 1"
proof (induction piece s rule: split_ws.induct)
  case (1 piece)
  show ?case by simp
next
  case (2 piece c cs)
  show ?case
  proof (cases "isWhiteSpace c")
    case True
    let ?d = "dropWhile isWhiteSpace cs"
    from "2.prems" True have cs: "cs \<noteq> []" "\<not> isWhiteSpace (last cs)" by (auto split: if_splits)
    have d: "?d \<noteq> []"
    proof
      assume "?d = []"
      then have "\<forall>x \<in> set cs. isWhiteSpace x" by (simp add: dropWhile_eq_Nil_conv)
      with cs show False using last_in_set by blast
    qed
    obtain ys where "cs = ys @ ?d" by (metis takeWhile_dropWhile_id)
    with d have ld: "last ?d = last cs" by (metis last_appendR)
    have hd: "\<not> isWhiteSpace (hd ?d)" using d by (rule hd_dropWhile)
    from d obtain x xs where dx: "?d = x # xs" by (cases ?d) auto
    with hd have x: "\<not> isWhiteSpace x" by simp
    have "length (split_ws [] ?d) = count_tokens True ?d + 1"
      using "2.IH"(1) [OF True] d ld cs(2) by simp
    moreover have "count_tokens False ?d = count_tokens True ?d + 1"
      using x by (simp add: dx)
    moreover have "count_tokens True (c # cs) = count_tokens False ?d"
      using True by (simp add: count_tokens_dropWhile)
    ultimately show ?thesis using True by simp
  next
    case False
    from "2.prems" have "cs = [] \<or> \<not> isWhiteSpace (last cs)" by (auto split: if_splits)
    with "2.IH"(2) [OF False] False show ?thesis by simp
  qed
qed

lemma trim_ends:
  assumes "trim s \<noteq> []"
  shows "\<not> isWhiteSpace (hd (trim s)) \<and> \<not> isWhiteSpace (last (trim s))"
proof -
  let ?d = "dropWhile isWhiteSpace s"
  let ?e = "dropWhile isWhiteSpace (rev ?d)"
  from assms have e: "?e \<noteq> []" by (simp add: trim_def)
  have d: "?d \<noteq> []"
  proof
    assume "?d = []"
    then have "?e = []" by (simp only: rev.simps dropWhile.simps)
    with e show False by contradiction
  qed
  have "last (trim s) = hd ?e" using e by (simp add: trim_def last_rev)
  moreover have "\<not> isWhiteSpace (hd ?e)" using e by (rule hd_dropWhile)
  moreover have "hd (trim s) = last ?e" using e by (simp add: trim_def hd_rev)
  moreover have "last ?e = hd ?d"
  proof -
    obtain ys where "rev ?d = ys @ ?e" by (metis takeWhile_dropWhile_id)
    with e have "last ?e = last (rev ?d)" by (metis last_appendR)
    then show ?thesis using d by (simp add: last_rev)
  qed
  moreover have "\<not> isWhiteSpace (hd ?d)" using d by (rule hd_dropWhile)
  ultimately show ?thesis by simp
qed

lemma words_of_nonempty:
  assumes "trim (text seg) \<noteq> []"
  shows "words_of seg = token_count (trim (text seg))"
proof -
  let ?t = "trim (text seg)"
  from trim_ends [OF assms] have h: "\<not> isWhiteSpace (hd ?t)" and l: "\<not> isWhiteSpace (last ?t)"
    by simp_all
  from assms obtain x xs where t: "?t = x # xs" by (cases ?t) auto
  have "length (split_ws [] ?t) = count_tokens True ?t + 1"
    using l by (intro split_ws_length) simp
  moreover have "count_tokens False ?t = count_tokens True ?t + 1"
    using h by (simp add: t)
  ultimately show ?thesis by (simp add: words_of_def split_whitespace_def token_count_def)
qed

section \<open>Analyzer: the claims\<close>

text \<open>
  Claim C8. For a transcript that is not empty, \<open>totalWords\<close> is the sum of the word
  counts of the segments, \<open>totalDuration\<close> is the end of the last segment minus the
  start of the first (the span, gaps included), and \<open>globalWpm\<close> is the guarded
  expression applied to these two.
\<close>

theorem speed_stats_totals:
  assumes "transcript \<noteq> []"
  shows "totalWords (speed_stats transcript) = sum_list (map words_of transcript)
     \<and> totalDuration (speed_stats transcript) = endTime (last transcript) - startTime (hd transcript)
     \<and> globalWpm (speed_stats transcript) =
         guarded_wpm (totalWords (speed_stats transcript)) (totalDuration (speed_stats transcript))"
  by (simp add: speed_stats_nonempty [OF assms])

text \<open>
  Two segments four seconds apart: the span is 6 seconds, the segment durations sum to 2.
\<close>

theorem speed_stats_totals_witness:
  "[\<lparr>startTime = 0, endTime = 1, text = str ''a b''\<rparr>,
    \<lparr>startTime = 5, endTime = 6, text = str ''c''\<rparr>] \<noteq> []
   \<and> totalWords (speed_stats [\<lparr>startTime = 0, endTime = 1, text = str ''a b''\<rparr>,
                               \<lparr>startTime = 5, endTime = 6, text = str ''c''\<rparr>]) = 3
   \<and> totalDuration (speed_stats [\<lparr>startTime = 0, endTime = 1, text = str ''a b''\<rparr>,
                                  \<lparr>startTime = 5, endTime = 6, text = str ''c''\<rparr>]) = 6
   \<and> globalWpm (speed_stats [\<lparr>startTime = 0, endTime = 1, text = str ''a b''\<rparr>,
                              \<lparr>startTime = 5, endTime = 6, text = str ''c''\<rparr>]) = Finite 30
   \<and> sum_list (map (\<lambda>seg. endTime seg - startTime seg)
        [\<lparr>startTime = 0, endTime = 1, text = str ''a b''\<rparr>,
         \<lparr>startTime = 5, endTime = 6, text = str ''c''\<rparr>]) = 2"
  using speed_stats_totals
    [of "[\<lparr>startTime = 0, endTime = 1, text = str ''a b''\<rparr>,
          \<lparr>startTime = 5, endTime = 6, text = str ''c''\<rparr>]"]
  by (simp add: speed_stats_def stat_step_def guarded_wpm_def words_of_def
      split_whitespace_def trim_def str_def isWhiteSpace_def Let_def
      to_double_one to_double_numeral to_double_half)

text \<open>
  Claim C7, as the code has it. The guard excludes a zero divisor and nothing else: the
  global rate and the rate of every segment are \<open>0\<close> when the duration is not positive,
  the division is never by zero, and the result is never \<open>NaN\<close> or \<open>-Infinity\<close>: it
  is a non-negative integer, or \<open>Infinity\<close> when the quotient or its product with 60
  overflows the doubles. It is finite for every duration of at least \<open>1/1024\<close> second
  and up to \<open>2 ^ 40\<close> words. The guarded expression gives \<open>0\<close> for 10 words in 0
  seconds and \<open>150\<close> for 150 words in 60 seconds.
\<close>

theorem wpm_zero_duration_guard:
  "(totalDuration (speed_stats transcript) \<le> 0 \<longrightarrow>
      globalWpm (speed_stats transcript) = Finite 0)
   \<and> (globalWpm (speed_stats transcript) = PosInf
        \<or> (\<exists>n. 0 \<le> n \<and> globalWpm (speed_stats transcript) = Finite (of_int n)))
   \<and> length (segmentStats (speed_stats transcript)) = length transcript
   \<and> (\<forall>i < length transcript.
        (endTime (transcript ! i) - startTime (transcript ! i) \<le> 0 \<longrightarrow>
           wpm (segmentStats (speed_stats transcript) ! i) = Finite 0)
        \<and> (wpm (segmentStats (speed_stats transcript) ! i) = PosInf
             \<or> (\<exists>n. 0 \<le> n \<and> wpm (segmentStats (speed_stats transcript) ! i) = Finite (of_int n))))
   \<and> (\<forall>d. js_gt (to_double d) (Finite 0) \<longrightarrow> to_double d \<noteq> Finite 0)
   \<and> (\<forall>w d. 1 / 1024 \<le> d \<and> w \<le> 2 ^ 40 \<longrightarrow>
          (\<exists>n. 0 \<le> n \<and> guarded_wpm w d = Finite (of_int n)))
   \<and> guarded_wpm 10 0 = Finite 0 \<and> guarded_wpm 150 60 = Finite 150"
proof -
  have ex: "guarded_wpm 10 0 = Finite 0" "guarded_wpm 150 60 = Finite 150"
    by (simp_all add: guarded_wpm_def to_double_zero to_double_numeral to_double_five_halves)
  have gen: "\<forall>d. js_gt (to_double d) (Finite 0) \<longrightarrow> to_double d \<noteq> Finite 0"
    "\<forall>w d. 1 / 1024 \<le> d \<and> w \<le> 2 ^ 40 \<longrightarrow> (\<exists>n. 0 \<le> n \<and> guarded_wpm w d = Finite (of_int n))"
    using guarded_wpm_divisor guarded_wpm_finite by blast+
  show ?thesis
  proof (cases "transcript = []")
    case True
    have "\<exists>n. 0 \<le> n \<and> Finite 0 = Finite (real_of_int n)" by (rule exI [of _ 0]) simp
    with True ex gen show ?thesis by (simp add: speed_stats_empty)
  next
    case False
    show ?thesis
      unfolding speed_stats_nonempty [OF False]
      using ex gen guarded_wpm_range by (simp add: guarded_wpm_guard)
  qed
qed

text \<open>
  A transcript of one segment of duration zero, and 150 words in 60 seconds.
\<close>

theorem wpm_zero_duration_guard_witness:
  "totalDuration (speed_stats [\<lparr>startTime = 2, endTime = 2, text = str ''a b''\<rparr>]) \<le> 0
   \<and> globalWpm (speed_stats [\<lparr>startTime = 2, endTime = 2, text = str ''a b''\<rparr>]) = Finite 0
   \<and> (0::nat) < length [\<lparr>startTime = 2, endTime = 2, text = str ''a b''\<rparr>]
   \<and> endTime ([\<lparr>startTime = 2, endTime = 2, text = str ''a b''\<rparr>] ! 0)
       - startTime ([\<lparr>startTime = 2, endTime = 2, text = str ''a b''\<rparr>] ! 0) \<le> 0
   \<and> wpm (segmentStats (speed_stats [\<lparr>startTime = 2, endTime = 2, text = str ''a b''\<rparr>]) ! 0)
       = Finite 0
   \<and> js_gt (to_double 60) (Finite 0) \<and> to_double 60 = Finite 60
   \<and> 1 / 1024 \<le> (60::real) \<and> (150::nat) \<le> 2 ^ 40 \<and> guarded_wpm 150 60 = Finite 150"
  using wpm_zero_duration_guard [of "[\<lparr>startTime = 2, endTime = 2, text = str ''a b''\<rparr>]"]
  by (simp add: speed_stats_def stat_step_def guarded_wpm_def words_of_def
      split_whitespace_def trim_def str_def isWhiteSpace_def Let_def
      to_double_zero to_double_numeral to_double_five_halves)

text \<open>
  Claim C7 as stated fails: one word in a segment of \<open>2 ^ -1020\<close> seconds (about
  \<open>9e-308\<close>). The duration is positive, the quotient \<open>2 ^ 1020\<close> is a double, and its
  product with 60 overflows: both the rate of the segment and the global rate are
  \<open>Infinity\<close>.
\<close>

theorem wpm_overflow_counterexample:
  "0 < tiny
   \<and> totalDuration (speed_stats [\<lparr>startTime = 0, endTime = tiny, text = str ''a''\<rparr>]) = tiny
   \<and> totalWords (speed_stats [\<lparr>startTime = 0, endTime = tiny, text = str ''a''\<rparr>]) = 1
   \<and> globalWpm (speed_stats [\<lparr>startTime = 0, endTime = tiny, text = str ''a''\<rparr>]) = PosInf
   \<and> wpm (hd (segmentStats (speed_stats [\<lparr>startTime = 0, endTime = tiny, text = str ''a''\<rparr>])))
       = PosInf"
proof -
  have w: "words_of \<lparr>startTime = 0, endTime = tiny, text = str ''a''\<rparr> = 1"
    by (simp add: words_of_def split_whitespace_def trim_def str_def isWhiteSpace_def)
  have "0 < tiny" unfolding tiny_def by (rule pow2_pos)
  then show ?thesis using guarded_wpm_tiny by (simp add: speed_stats_nonempty w)
qed

text \<open>
  Claim C3 at a blank text. \<open>split\<close> returns one (empty) piece for the empty string, so
  a segment whose text is empty or all whitespace gets the word count 1, where the count
  of whitespace-delimited tokens is 0; over one second its rate is 60. On every text
  that does not trim to the empty string the two counts agree (\<open>words_of_nonempty\<close>).
\<close>

theorem words_of_blank_text:
  "words_of \<lparr>startTime = 0, endTime = 1, text = []\<rparr> = 1
   \<and> words_of \<lparr>startTime = 0, endTime = 1, text = str ''   ''\<rparr> = 1
   \<and> token_count (trim []) = 0 \<and> token_count (trim (str ''   '')) = 0
   \<and> wpm (hd (segmentStats (speed_stats [\<lparr>startTime = 0, endTime = 1, text = []\<rparr>]))) = Finite 60"
  by (simp add: words_of_def split_whitespace_def trim_def str_def isWhiteSpace_def token_count_def
      speed_stats_def stat_step_def guarded_wpm_def Let_def to_double_one to_double_numeral)

end
